theory Spec2Isabelle
  imports Main "HOL-Library.Word"
begin

unbundle bit_operations_syntax

section \<open>Constants and tables\<close>

type_synonym byte = "8 word"

definition ROM_SEGMENT_SIZE :: nat where
  "ROM_SEGMENT_SIZE = 131072"

definition LIST_FILENAME_ALIGN_WIDTH :: nat where
  "LIST_FILENAME_ALIGN_WIDTH = 40"

definition TAB_WIDTH :: nat where
  "TAB_WIDTH = 8"

definition ROM_MAGIC :: "byte list" where
  "ROM_MAGIC = [0x5A, 0xA5, 0x69, 0x55]"

definition MODE_ADPCM :: byte where
  "MODE_ADPCM = 0x00"

definition MODE_PCM :: byte where
  "MODE_PCM = 0x40"

definition DEFAULT_SAMPLE_RATE :: nat where
  "DEFAULT_SAMPLE_RATE = 8000"

definition step_table :: "int list list" where
  "step_table =
    [[0, 0, 1, 2, 3, 5, 7, 10, 0, 0, -1, -2, -3, -5, -7, -10],
     [0, 1, 2, 3, 4, 6, 8, 13, 0, -1, -2, -3, -4, -6, -8, -13],
     [0, 1, 2, 4, 5, 7, 10, 15, 0, -1, -2, -4, -5, -7, -10, -15],
     [0, 1, 3, 4, 6, 9, 13, 19, 0, -1, -3, -4, -6, -9, -13, -19],
     [0, 2, 3, 5, 8, 11, 15, 23, 0, -2, -3, -5, -8, -11, -15, -23],
     [0, 2, 4, 7, 10, 14, 19, 29, 0, -2, -4, -7, -10, -14, -19, -29],
     [0, 3, 5, 8, 12, 16, 22, 33, 0, -3, -5, -8, -12, -16, -22, -33],
     [1, 4, 7, 10, 15, 20, 29, 43, -1, -4, -7, -10, -15, -20, -29, -43],
     [1, 4, 8, 13, 18, 25, 35, 53, -1, -4, -8, -13, -18, -25, -35, -53],
     [1, 6, 10, 16, 22, 31, 43, 64, -1, -6, -10, -16, -22, -31, -43, -64],
     [2, 7, 12, 19, 27, 37, 51, 76, -2, -7, -12, -19, -27, -37, -51, -76],
     [2, 9, 16, 24, 34, 46, 64, 96, -2, -9, -16, -24, -34, -46, -64, -96],
     [3, 11, 19, 29, 41, 57, 79, 117, -3, -11, -19, -29, -41, -57, -79, -117],
     [4, 13, 24, 36, 50, 69, 96, 143, -4, -13, -24, -36, -50, -69, -96, -143],
     [4, 16, 29, 44, 62, 85, 118, 175, -4, -16, -29, -44, -62, -85, -118, -175],
     [6, 20, 36, 54, 76, 104, 144, 214, -6, -20, -36, -54, -76, -104, -144, -214]]"

definition state_table :: "int list" where
  "state_table = [-1, -1, 0, 0, 1, 2, 2, 3, -1, -1, 0, 0, 1, 2, 2, 3]"

section \<open>Integer conversions of the C code\<close>

text \<open>
  Values of the C types \<open>int\<close>, \<open>int16_t\<close> and \<open>int8_t\<close> are integers here; the
  conversions to the narrow types are written out as reduction modulo the width, which is
  what the casts \<open>(int16_t)\<close> and \<open>(int8_t)\<close> do on the two's complement targets the
  program is built for.
\<close>

definition int16_cast :: "int \<Rightarrow> int" where
  "int16_cast x = (x + 32768) mod 65536 - 32768"

definition int8_cast :: "int \<Rightarrow> int" where
  "int8_cast x = (x + 128) mod 256 - 128"

section \<open>The ADPCM nibble decoder\<close>

record AdpcmState =
  current_sample :: int
  adpcm_state :: int

text \<open>
  \<open>PcmBuffer\<close> is the sequence of samples stored so far; its \<open>count\<close> is the length
  of the list. \<open>add_pcm_sample\<close> appends one sample. The reallocation inside it is taken
  to succeed, so the \<open>false\<close> return of the C function has no counterpart here.
\<close>

type_synonym PcmBuffer = "int list"

definition init_pcm_buffer :: PcmBuffer where
  "init_pcm_buffer = []"

definition add_pcm_sample :: "PcmBuffer \<Rightarrow> int \<Rightarrow> PcmBuffer" where
  "add_pcm_sample buffer sample = buffer @ [sample]"

text \<open>
  \<open>decode_nibble\<close> follows the C function statement by statement. The shift
  \<open>current_sample << 7\<close> is the multiplication by 128 in \<open>int\<close>; \<open>32767 >> 7\<close> is 255
  and \<open>-32768 >> 7\<close> is \<open>-256\<close>. The message printed when the state index guard fires
  is not part of the model, the reset of the index is.
\<close>

definition decode_nibble :: "byte \<Rightarrow> AdpcmState \<Rightarrow> PcmBuffer \<Rightarrow> AdpcmState \<times> PcmBuffer" where
  "decode_nibble nibble state pcm_buffer =
    (let idx = (if adpcm_state state < 0 \<or> adpcm_state state > 15 then 0 else adpcm_state state);
         diff = step_table ! nat idx ! unat nibble;
         sum = current_sample state + diff;
         next_sample = (if sum > 32767 then 32767 else if sum < -32768 then -32768 else sum);
         cur = int16_cast next_sample;
         raw_state = idx + state_table ! unat nibble;
         next_state = (if raw_state < 0 then 0 else if raw_state > 15 then 15 else raw_state);
         scaled = int16_cast (cur * 128);
         clamped_hi = (if cur > 255 \<and> diff > 0 then 32767 else scaled);
         pcm_sample = (if cur < -256 \<and> diff < 0 then -32768 else clamped_hi)
     in (\<lparr>current_sample = cur, adpcm_state = int8_cast next_state\<rparr>,
         add_pcm_sample pcm_buffer pcm_sample))"

section \<open>Diagnostics and sink calls\<close>

text \<open>
  What the program sends to the outside while it walks a ROM: the warnings and errors of
  \<open>fprintf(stderr, ...)\<close>, one constructor per message with the numbers it prints; the
  calls of the two file sinks \<open>write_wav_file\<close> and \<open>save_raw_pcm\<close> with their
  arguments; and the text that list mode prints on standard output. The progress messages
  of \<open>status_printf\<close> and \<open>verbose_printf\<close> are not modelled.
\<close>

datatype event =
    Warn_start_out_of_bounds nat nat nat nat
  | Warn_end_of_rom_nibble nat
  | Warn_end_of_rom_command nat
  | Warn_end_of_rom_long byte nat
  | Warn_end_of_rom_repeat byte nat
  | Warn_unknown_command byte nat nat
  | Error_decoding_failed nat
  | Write_wav string PcmBuffer nat string string string "string option"
  | Warn_pcm_range nat
  | Save_raw_pcm string nat nat
  | Warn_unknown_mode byte nat nat
  | Warn_list_mode_byte nat nat
  | Stdout string
  | Comment_buffer_overrun
  | Error_invalid_rom_size
  | Error_rom_too_small
  | Error_invalid_magic
  | Error_offset_table nat nat nat
  | Error_target_not_found int

section \<open>The ADPCM command loop of \<open>process_message\<close>\<close>

text \<open>
  The local variables of the ADPCM branch of \<open>process_message\<close>, threaded through the
  \<open>while\<close> loop. \<open>adpcm\<close> is the local \<open>adpcm_state\<close> of type \<open>AdpcmState\<close>;
  \<open>broke\<close> records that the loop was left by a \<open>break\<close> statement; \<open>diag\<close>
  collects the warnings printed inside the loop. Positions are natural numbers: for ROM
  images shorter than \<open>2 ^ 32\<close> bytes the \<open>uint32_t\<close> variable
  \<open>current_repeat_nibble_start\<close> holds a position exactly.
\<close>

record decode_state =
  current_pos :: nat
  adpcm :: AdpcmState
  pcm_buffer :: PcmBuffer
  decoding_ok :: bool
  end_of_message :: bool
  nibble_count :: nat
  repeat_count :: nat
  current_repeat_nibble_start :: nat
  current_repeat_nibble_count :: nat
  broke :: bool
  diag :: "event list"

definition initial_decode_state :: "nat \<Rightarrow> decode_state" where
  "initial_decode_state pos =
    \<lparr>current_pos = pos, adpcm = \<lparr>current_sample = 0, adpcm_state = 0\<rparr>,
     pcm_buffer = init_pcm_buffer, decoding_ok = True, end_of_message = False,
     nibble_count = 0, repeat_count = 0, current_repeat_nibble_start = 0,
     current_repeat_nibble_count = 0, broke = False, diag = []\<rparr>"

primrec add_silence :: "nat \<Rightarrow> PcmBuffer \<Rightarrow> PcmBuffer" where
  "add_silence 0 buffer = buffer"
| "add_silence (Suc i) buffer = add_silence i (add_pcm_sample buffer 0)"

definition nibble_phase :: "byte list \<Rightarrow> nat \<Rightarrow> decode_state \<Rightarrow> decode_state" where
  "nibble_phase rom_data absolute_msg_idx s =
    (if current_pos s \<ge> length rom_data then
       s\<lparr>decoding_ok := False, broke := True,
         diag := diag s @ [Warn_end_of_rom_nibble absolute_msg_idx]\<rparr>
     else
       let data_byte = rom_data ! current_pos s;
           nibble1 = drop_bit 4 data_byte AND 0x0F;
           nibble2 = data_byte AND 0x0F;
           (a1, b1) = decode_nibble nibble1 (adpcm s) (pcm_buffer s);
           s1 = s\<lparr>current_pos := current_pos s + 1, adpcm := a1, pcm_buffer := b1,
                  nibble_count := nibble_count s - 1\<rparr>;
           s2 = (if nibble_count s1 > 0 then
                   let (a2, b2) = decode_nibble nibble2 (adpcm s1) (pcm_buffer s1)
                   in s1\<lparr>adpcm := a2, pcm_buffer := b2, nibble_count := nibble_count s1 - 1\<rparr>
                 else s1)
       in if repeat_count s2 > 0 \<and> nibble_count s2 = 0 then
            let s3 = s2\<lparr>repeat_count := repeat_count s2 - 1\<rparr>
            in if repeat_count s3 > 0 then
                 s3\<lparr>current_pos := current_repeat_nibble_start s3,
                    nibble_count := current_repeat_nibble_count s3\<rparr>
               else
                 s3\<lparr>current_repeat_nibble_start := 0, current_repeat_nibble_count := 0\<rparr>
          else s2)"

definition command_phase :: "byte list \<Rightarrow> nat \<Rightarrow> decode_state \<Rightarrow> decode_state" where
  "command_phase rom_data absolute_msg_idx s =
    (if current_pos s \<ge> length rom_data then
       s\<lparr>end_of_message := (length (pcm_buffer s) > 0),
         decoding_ok := (length (pcm_buffer s) > 0), broke := True,
         diag := diag s @ [Warn_end_of_rom_command absolute_msg_idx]\<rparr>
     else
       let command = rom_data ! current_pos s;
           s1 = s\<lparr>current_pos := current_pos s + 1\<rparr>;
           s2 =
            (if command = 0x00 then s1\<lparr>end_of_message := True\<rparr>
             else if command \<ge> 0x01 \<and> command \<le> 0x3F then
               s1\<lparr>pcm_buffer := add_silence (unat command * 8) (pcm_buffer s1)\<rparr>
             else if command \<ge> 0x40 \<and> command \<le> 0x7F then
               s1\<lparr>nibble_count := 256, repeat_count := 0\<rparr>
             else if command \<ge> 0x80 \<and> command \<le> 0xBF then
               (if current_pos s1 \<ge> length rom_data then
                  s1\<lparr>decoding_ok := False, broke := True,
                     diag := diag s1 @ [Warn_end_of_rom_long command absolute_msg_idx]\<rparr>
                else
                  let n = rom_data ! current_pos s1
                  in s1\<lparr>current_pos := current_pos s1 + 1, nibble_count := unat n + 1,
                        repeat_count := 0\<rparr>)
             else if command \<ge> 0xC0 \<and> command \<le> 0xFF then
               (if current_pos s1 \<ge> length rom_data then
                  s1\<lparr>decoding_ok := False, broke := True,
                     diag := diag s1 @ [Warn_end_of_rom_repeat command absolute_msg_idx]\<rparr>
                else
                  let n = rom_data ! current_pos s1
                  in s1\<lparr>current_pos := current_pos s1 + 1, nibble_count := unat n + 1,
                        repeat_count := unat (drop_bit 3 command AND 0x07),
                        current_repeat_nibble_start := current_pos s1 + 1,
                        current_repeat_nibble_count := unat n + 1\<rparr>)
             else
               s1\<lparr>decoding_ok := False, broke := True,
                  diag := diag s1 @ [Warn_unknown_command command (current_pos s1 - 1)
                                      absolute_msg_idx]\<rparr>)
       in if \<not> decoding_ok s2 then s2\<lparr>broke := True\<rparr> else s2)"

definition loop_cond :: "byte list \<Rightarrow> decode_state \<Rightarrow> bool" where
  "loop_cond rom_data s \<longleftrightarrow>
     \<not> broke s \<and> \<not> end_of_message s \<and> current_pos s < length rom_data"

definition loop_body :: "byte list \<Rightarrow> nat \<Rightarrow> decode_state \<Rightarrow> decode_state" where
  "loop_body rom_data absolute_msg_idx s =
    (if nibble_count s > 0 then nibble_phase rom_data absolute_msg_idx s
     else command_phase rom_data absolute_msg_idx s)"

subsection \<open>Termination of the loop\<close>

text \<open>
  The loop can move \<open>current_pos\<close> backwards when it replays a block, so its
  termination needs an argument. While a repeat is pending the state is well formed
  (\<open>rc_valid\<close>): the cursor lies inside the remembered block, which has at most 256
  nibbles. Replays are paid for by \<open>repeat_count\<close>, everything else by the distance to
  the end of the ROM.
\<close>

definition rc_valid :: "decode_state \<Rightarrow> bool" where
  "rc_valid s \<longleftrightarrow> repeat_count s = 0 \<or>
     (0 < nibble_count s \<and> current_repeat_nibble_start s \<le> current_pos s \<and>
      2 * (current_pos s - current_repeat_nibble_start s) + nibble_count s
        \<le> current_repeat_nibble_count s + 1 \<and>
      1 \<le> current_repeat_nibble_count s \<and> current_repeat_nibble_count s \<le> 256)"

definition rc_rank :: "decode_state \<Rightarrow> nat" where
  "rc_rank s = (if rc_valid s then 0 else repeat_count s)"

definition pos_rank :: "byte list \<Rightarrow> decode_state \<Rightarrow> nat" where
  "pos_rank rom_data s =
    (if rc_valid s then
       (if repeat_count s = 0 then 1040 * (length rom_data - current_pos s)
        else 1040 * (length rom_data - current_repeat_nibble_start s) + 130 * repeat_count s
             + (current_repeat_nibble_start s + 129 - current_pos s))
     else length rom_data - current_pos s)"

lemma rep_field_le7: "unat (drop_bit 3 (c::byte) AND 0x07) \<le> 7"
proof -
  have "unat (drop_bit 3 c AND 7) \<le> unat (7 :: byte)"
    by (rule word_and_le1 [THEN word_le_nat_alt [THEN iffD1]])
  then show ?thesis by simp
qed

lemma unat_byte_le: "unat (n::byte) \<le> 255"
  using unsigned_less[of n, where 'a=nat] by simp

text \<open>
  The control fields after one pass through the nibble decoding branch: the block goes
  on, the block ends with no replay left, or the block is rewound.
\<close>

definition nibbles_left :: "nat \<Rightarrow> nat" where
  "nibbles_left nc = (if nc - 1 > 0 then nc - 2 else 0)"

lemma nibble_phase_more:
  assumes "current_pos s < length rom" "repeat_count s = 0 \<or> nibbles_left (nibble_count s) > 0"
  shows "current_pos (nibble_phase rom a s) = current_pos s + 1"
    and "nibble_count (nibble_phase rom a s) = nibbles_left (nibble_count s)"
    and "repeat_count (nibble_phase rom a s) = repeat_count s"
    and "current_repeat_nibble_start (nibble_phase rom a s) = current_repeat_nibble_start s"
    and "current_repeat_nibble_count (nibble_phase rom a s) = current_repeat_nibble_count s"
    and "broke (nibble_phase rom a s) = broke s"
    and "end_of_message (nibble_phase rom a s) = end_of_message s"
  using assms by (auto simp add: nibble_phase_def Let_def case_prod_beta nibbles_left_def split: if_splits)

lemma nibble_phase_last:
  assumes "current_pos s < length rom" "repeat_count s = 1" "nibbles_left (nibble_count s) = 0"
  shows "current_pos (nibble_phase rom a s) = current_pos s + 1"
    and "nibble_count (nibble_phase rom a s) = 0"
    and "repeat_count (nibble_phase rom a s) = 0"
    and "current_repeat_nibble_start (nibble_phase rom a s) = 0"
    and "current_repeat_nibble_count (nibble_phase rom a s) = 0"
    and "broke (nibble_phase rom a s) = broke s"
    and "end_of_message (nibble_phase rom a s) = end_of_message s"
  using assms by (auto simp add: nibble_phase_def Let_def case_prod_beta nibbles_left_def split: if_splits)

lemma nibble_phase_rewind:
  assumes "current_pos s < length rom" "repeat_count s > 1" "nibbles_left (nibble_count s) = 0"
  shows "current_pos (nibble_phase rom a s) = current_repeat_nibble_start s"
    and "nibble_count (nibble_phase rom a s) = current_repeat_nibble_count s"
    and "repeat_count (nibble_phase rom a s) = repeat_count s - 1"
    and "current_repeat_nibble_start (nibble_phase rom a s) = current_repeat_nibble_start s"
    and "current_repeat_nibble_count (nibble_phase rom a s) = current_repeat_nibble_count s"
    and "broke (nibble_phase rom a s) = broke s"
    and "end_of_message (nibble_phase rom a s) = end_of_message s"
  using assms by (auto simp add: nibble_phase_def Let_def case_prod_beta nibbles_left_def split: if_splits)

lemma nibble_step_decreases:
  assumes c: "loop_cond rom s" and n: "nibble_count s > 0"
    and c': "loop_cond rom (nibble_phase rom a s)"
  shows "rc_rank (nibble_phase rom a s) < rc_rank s \<or>
         (rc_rank (nibble_phase rom a s) = rc_rank s \<and>
          pos_rank rom (nibble_phase rom a s) < pos_rank rom s)"
proof -
  from c have p: "current_pos s < length rom" by (simp add: loop_cond_def)
  consider (more) "repeat_count s = 0 \<or> nibbles_left (nibble_count s) > 0"
    | (last) "repeat_count s = 1" "nibbles_left (nibble_count s) = 0"
    | (rewind) "repeat_count s > 1" "nibbles_left (nibble_count s) = 0"
    by linarith
  then show ?thesis
  proof cases
    case more
    note f = nibble_phase_more[OF p more, of a]
    show ?thesis
    proof (cases "repeat_count s = 0")
      case True
      then show ?thesis using p by (simp add: rc_rank_def pos_rank_def rc_valid_def f)
    next
      case pending: False
      with more have m: "nibble_count s > 2" by (simp add: nibbles_left_def split: if_splits)
      show ?thesis
      proof (cases "rc_valid s")
        case True
        with pending m have v: "rc_valid (nibble_phase rom a s)"
          by (simp add: rc_valid_def f nibbles_left_def; arith)
        from True pending m have "current_pos s \<le> current_repeat_nibble_start s + 128"
          by (simp add: rc_valid_def; arith)
        with True v pending p show ?thesis
          by (simp add: rc_rank_def pos_rank_def f; arith)
      next
        case False
        with p pending show ?thesis
          by (simp add: rc_rank_def pos_rank_def f; arith)
      qed
    qed
  next
    case last
    note f = nibble_phase_last[OF p last, of a]
    have v: "rc_valid (nibble_phase rom a s)" by (simp add: rc_valid_def f)
    show ?thesis
    proof (cases "rc_valid s")
      case True
      with last n have "current_repeat_nibble_start s \<le> current_pos s"
        by (simp add: rc_valid_def)
      with True v last p show ?thesis
        by (simp add: rc_rank_def pos_rank_def f; arith)
    next
      case False
      with v last show ?thesis by (simp add: rc_rank_def)
    qed
  next
    case rewind
    note f = nibble_phase_rewind[OF p rewind, of a]
    from c' have p': "current_repeat_nibble_start s < length rom"
      by (simp add: loop_cond_def f)
    show ?thesis
    proof (cases "rc_valid s")
      case True
      with rewind n have i: "current_repeat_nibble_start s \<le> current_pos s"
        "current_pos s \<le> current_repeat_nibble_start s + 128"
        "1 \<le> current_repeat_nibble_count s" "current_repeat_nibble_count s \<le> 256"
        by (simp_all add: rc_valid_def; arith)+
      then have v: "rc_valid (nibble_phase rom a s)" by (simp add: rc_valid_def f)
      from True v rewind i p p' show ?thesis
        by (simp add: rc_rank_def pos_rank_def f; arith)
    next
      case False
      with rewind show ?thesis by (simp add: rc_rank_def f)
    qed
  qed
qed

text \<open>
  The command branch, one equation per opcode class. \<open>break_unless_ok\<close> is the
  statement \<open>if (!decoding_ok) break;\<close> that ends the branch.
\<close>

definition break_unless_ok :: "decode_state \<Rightarrow> decode_state" where
  "break_unless_ok s = (if \<not> decoding_ok s then s\<lparr>broke := True\<rparr> else s)"

lemma byte_not_zero: "(c::byte) \<noteq> 0 \<longleftrightarrow> 1 \<le> c"
  by (simp add: word_le_nat_alt Suc_le_eq unat_gt_0)

lemma byte_le_255: "(c::byte) \<le> 0xFF"
  using unat_byte_le[of c] by (simp add: word_le_nat_alt)

lemma opcode_classes:
  fixes c :: byte
  obtains (eom) "c = 0x00"
    | (silence) "c \<noteq> 0x00" "c \<le> 0x3F"
    | (short) "0x40 \<le> c" "c \<le> 0x7F"
    | (long) "0x80 \<le> c" "c \<le> 0xBF"
    | (repeat) "0xC0 \<le> c"
proof -
  have "c = 0 \<or> (c \<noteq> 0 \<and> c \<le> 0x3F) \<or> (0x40 \<le> c \<and> c \<le> 0x7F)
        \<or> (0x80 \<le> c \<and> c \<le> 0xBF) \<or> 0xC0 \<le> c"
    by (simp add: word_le_nat_alt) arith
  with that show thesis by blast
qed

lemma command_phase_end:
  assumes "current_pos s < length rom" "rom ! current_pos s = 0x00"
  shows "command_phase rom a s =
    break_unless_ok (s\<lparr>current_pos := current_pos s + 1, end_of_message := True\<rparr>)"
  using assms by (simp add: command_phase_def break_unless_ok_def Let_def)

lemma command_phase_silence:
  assumes "current_pos s < length rom" "rom ! current_pos s \<noteq> 0x00"
    "rom ! current_pos s \<le> 0x3F"
  shows "command_phase rom a s =
    break_unless_ok (s\<lparr>current_pos := current_pos s + 1,
      pcm_buffer := add_silence (unat (rom ! current_pos s) * 8) (pcm_buffer s)\<rparr>)"
proof -
  from assms(2) have "1 \<le> rom ! current_pos s"
    by (simp add: byte_not_zero)
  with assms show ?thesis
    by (simp add: command_phase_def break_unless_ok_def Let_def)
qed

lemma command_phase_short:
  assumes "current_pos s < length rom" "0x40 \<le> rom ! current_pos s"
    "rom ! current_pos s \<le> 0x7F"
  shows "command_phase rom a s =
    break_unless_ok (s\<lparr>current_pos := current_pos s + 1, nibble_count := 256,
      repeat_count := 0\<rparr>)"
proof -
  from assms(2) have "rom ! current_pos s \<noteq> 0" "\<not> rom ! current_pos s \<le> 0x3F"
    by (auto simp: word_le_nat_alt)
  with assms show ?thesis
    by (simp add: command_phase_def break_unless_ok_def Let_def)
qed

lemma command_phase_long:
  assumes "current_pos s < length rom" "0x80 \<le> rom ! current_pos s"
    "rom ! current_pos s \<le> 0xBF"
  shows "command_phase rom a s =
    (if current_pos s + 1 \<ge> length rom then
       s\<lparr>current_pos := current_pos s + 1, decoding_ok := False, broke := True,
         diag := diag s @ [Warn_end_of_rom_long (rom ! current_pos s) a]\<rparr>
     else
       break_unless_ok (s\<lparr>current_pos := current_pos s + 2,
         nibble_count := unat (rom ! (current_pos s + 1)) + 1, repeat_count := 0\<rparr>))"
proof -
  from assms(2) have "rom ! current_pos s \<noteq> 0" "\<not> rom ! current_pos s \<le> 0x3F"
    "\<not> rom ! current_pos s \<le> 0x7F"
    by (auto simp: word_le_nat_alt)
  with assms show ?thesis
    by (simp add: command_phase_def break_unless_ok_def Let_def)
qed

lemma command_phase_repeat:
  assumes "current_pos s < length rom" "0xC0 \<le> rom ! current_pos s"
  shows "command_phase rom a s =
    (if current_pos s + 1 \<ge> length rom then
       s\<lparr>current_pos := current_pos s + 1, decoding_ok := False, broke := True,
         diag := diag s @ [Warn_end_of_rom_repeat (rom ! current_pos s) a]\<rparr>
     else
       break_unless_ok (s\<lparr>current_pos := current_pos s + 2,
         nibble_count := unat (rom ! (current_pos s + 1)) + 1,
         repeat_count := unat (drop_bit 3 (rom ! current_pos s) AND 0x07),
         current_repeat_nibble_start := current_pos s + 2,
         current_repeat_nibble_count := unat (rom ! (current_pos s + 1)) + 1\<rparr>))"
proof -
  from assms(2) have "rom ! current_pos s \<noteq> 0" "\<not> rom ! current_pos s \<le> 0x3F"
    "\<not> rom ! current_pos s \<le> 0x7F" "\<not> rom ! current_pos s \<le> 0xBF"
    by (auto simp: word_le_nat_alt)
  with assms byte_le_255[of "rom ! current_pos s"] show ?thesis
    by (simp add: command_phase_def break_unless_ok_def Let_def)
qed

lemma command_step_decreases:
  assumes c: "loop_cond rom s" and n: "nibble_count s = 0"
    and c': "loop_cond rom (command_phase rom a s)"
  shows "rc_rank (command_phase rom a s) < rc_rank s \<or>
         (rc_rank (command_phase rom a s) = rc_rank s \<and>
          pos_rank rom (command_phase rom a s) < pos_rank rom s)"
proof -
  from c have p: "current_pos s < length rom"
    by (simp add: loop_cond_def)
  from n have v: "rc_valid s \<longleftrightarrow> repeat_count s = 0"
    by (simp add: rc_valid_def)
  show ?thesis
  proof (cases "rom ! current_pos s" rule: opcode_classes)
    case eom
    with c' p show ?thesis
      by (simp add: command_phase_end break_unless_ok_def loop_cond_def split: if_splits)
  next
    case silence
    note e = command_phase_silence[OF p silence, of a]
    from c' have k: "\<not> broke (command_phase rom a s)" by (simp add: loop_cond_def)
    from k have e': "command_phase rom a s = s\<lparr>current_pos := current_pos s + 1,
      pcm_buffer := add_silence (unat (rom ! current_pos s) * 8) (pcm_buffer s)\<rparr>"
      unfolding e by (simp add: break_unless_ok_def split: if_splits)
    from n have "rc_valid (command_phase rom a s) \<longleftrightarrow> repeat_count s = 0"
      by (simp add: rc_valid_def e')
    with v p show ?thesis
      by (simp add: rc_rank_def pos_rank_def e'; arith)
  next
    case short
    note e = command_phase_short[OF p short, of a]
    from c' have k: "\<not> broke (command_phase rom a s)" by (simp add: loop_cond_def)
    from k have e': "command_phase rom a s = s\<lparr>current_pos := current_pos s + 1,
      nibble_count := 256, repeat_count := 0\<rparr>"
      unfolding e by (simp add: break_unless_ok_def split: if_splits)
    have "rc_valid (command_phase rom a s)"
      by (simp add: rc_valid_def e')
    with v p show ?thesis
      by (simp add: rc_rank_def pos_rank_def e'; arith)
  next
    case long
    note e = command_phase_long[OF p long, of a]
    from c' have k: "\<not> broke (command_phase rom a s)" by (simp add: loop_cond_def)
    from k have q: "current_pos s + 1 < length rom"
      unfolding e by (simp split: if_splits)
    with k have e': "command_phase rom a s = s\<lparr>current_pos := current_pos s + 2,
         nibble_count := unat (rom ! (current_pos s + 1)) + 1, repeat_count := 0\<rparr>"
      unfolding e by (simp add: break_unless_ok_def split: if_splits)
    have "rc_valid (command_phase rom a s)"
      by (simp add: rc_valid_def e')
    with v p q show ?thesis
      by (simp add: rc_rank_def pos_rank_def e'; arith)
  next
    case repeat
    note e = command_phase_repeat[OF p repeat, of a]
    from c' have k: "\<not> broke (command_phase rom a s)" by (simp add: loop_cond_def)
    from k have q: "current_pos s + 1 < length rom"
      unfolding e by (simp split: if_splits)
    with k have e': "command_phase rom a s = s\<lparr>current_pos := current_pos s + 2,
         nibble_count := unat (rom ! (current_pos s + 1)) + 1,
         repeat_count := unat (drop_bit 3 (rom ! current_pos s) AND 0x07),
         current_repeat_nibble_start := current_pos s + 2,
         current_repeat_nibble_count := unat (rom ! (current_pos s + 1)) + 1\<rparr>"
      unfolding e by (simp add: break_unless_ok_def split: if_splits)
    have r: "unat (drop_bit 3 (rom ! current_pos s) AND 0x07) \<le> 7"
      by (rule rep_field_le7)
    have u: "unat (rom ! Suc (current_pos s)) \<le> 255"
      by (rule unat_byte_le)
    from u have "rc_valid (command_phase rom a s)"
      by (simp add: rc_valid_def e')
    with v p q r show ?thesis
      by (simp add: rc_rank_def pos_rank_def e'; arith)
  qed
qed

function adpcm_loop :: "byte list \<Rightarrow> nat \<Rightarrow> decode_state \<Rightarrow> decode_state" where
  "adpcm_loop rom_data absolute_msg_idx s =
    (if loop_cond rom_data s
     then adpcm_loop rom_data absolute_msg_idx (loop_body rom_data absolute_msg_idx s)
     else s)"
  by pat_completeness auto
termination
proof (relation "measures [\<lambda>(rom, a, s). if loop_cond rom s then 1 else 0,
                           \<lambda>(rom, a, s). rc_rank s, \<lambda>(rom, a, s). pos_rank rom s]")
  show "wf (measures [\<lambda>(rom, a, s). if loop_cond rom s then 1 else 0,
                      \<lambda>(rom, a, s). rc_rank s, \<lambda>(rom, a, s). pos_rank rom s])"
    by simp
next
  fix rom_data :: "byte list" and absolute_msg_idx :: nat and s :: decode_state
  assume c: "loop_cond rom_data s"
  show "((rom_data, absolute_msg_idx, loop_body rom_data absolute_msg_idx s),
         (rom_data, absolute_msg_idx, s))
        \<in> measures [\<lambda>(rom, a, s). if loop_cond rom s then 1 else 0,
                     \<lambda>(rom, a, s). rc_rank s, \<lambda>(rom, a, s). pos_rank rom s]"
  proof (cases "loop_cond rom_data (loop_body rom_data absolute_msg_idx s)")
    case False
    with c show ?thesis by simp
  next
    case True
    show ?thesis
    proof (cases "nibble_count s > 0")
      case n: True
      with True have "loop_cond rom_data (nibble_phase rom_data absolute_msg_idx s)"
        by (simp add: loop_body_def)
      from nibble_step_decreases[OF c n this] c True n show ?thesis
        by (auto simp: loop_body_def)
    next
      case n: False
      then have z: "nibble_count s = 0" by simp
      with True have "loop_cond rom_data (command_phase rom_data absolute_msg_idx s)"
        by (simp add: loop_body_def)
      from command_step_decreases[OF c z this] c True z show ?thesis
        by (auto simp: loop_body_def)
    qed
  qed
qed

declare adpcm_loop.simps [simp del]

section \<open>Names, numbers and the mapping table\<close>

text \<open>
  \<open>dec\<close> prints a natural number as \<open>printf("%d")\<close> and \<open>printf("%u")\<close> print a
  non-negative value; \<open>dec03\<close> is \<open>"%03d"\<close>. The default file name is what
  \<open>snprintf(default_filename_base, 25, "message_%d_%03d", ...)\<close> leaves in its 25-byte
  buffer.
\<close>

fun dec :: "nat \<Rightarrow> string" where
  "dec n = (if n < 10 then [''0123456789'' ! n]
            else dec (n div 10) @ [''0123456789'' ! (n mod 10)])"

declare dec.simps [simp del]

definition dec03 :: "nat \<Rightarrow> string" where
  "dec03 n = replicate (3 - length (dec n)) (CHR ''0'') @ dec n"

definition default_filename_base :: "nat \<Rightarrow> nat \<Rightarrow> string" where
  "default_filename_base segment_index_0_based msg_idx_in_seg =
     take 24 (''message_'' @ dec segment_index_0_based @ ''_'' @ dec03 msg_idx_in_seg)"

record MessageMapping =
  segment_index :: nat
  message_index_in_seg :: nat
  output_filename_base :: string
  comment :: "string option"

type_synonym MappingTable = "MessageMapping list"

fun find_mapping :: "MappingTable \<Rightarrow> nat \<Rightarrow> nat \<Rightarrow> MessageMapping option" where
  "find_mapping [] segment_index_0_based msg_idx = None"
| "find_mapping (m # table) segment_index_0_based msg_idx =
     (if segment_index m = segment_index_0_based \<and> message_index_in_seg m = msg_idx
      then Some m else find_mapping table segment_index_0_based msg_idx)"

text \<open>\<open>strstr haystack needle \<noteq> NULL\<close>.\<close>

fun strstr :: "string \<Rightarrow> string \<Rightarrow> bool" where
  "strstr [] needle = (needle = [])"
| "strstr (c # rest) needle =
     (take (length needle) (c # rest) = needle \<or> strstr rest needle)"

section \<open>Processing one message\<close>

text \<open>
  \<open>process_message\<close> returns the events it causes; its C return value is always
  \<open>true\<close>. A call of \<open>write_wav_file\<close> is the event \<open>Write_wav\<close> with the file name,
  the samples, the sample rate, the ROM base name, the title, the track number and the
  comment; a call of \<open>save_raw_pcm\<close> is \<open>Save_raw_pcm\<close> with the file name and the
  byte range. File names are not cut at \<open>FILENAME_MAX\<close>.
\<close>

definition adpcm_result :: "decode_state \<Rightarrow> nat \<Rightarrow> string \<Rightarrow> string option \<Rightarrow> string
    \<Rightarrow> event list" where
  "adpcm_result f absolute_msg_idx output_base cmt rom_basename =
    (if decoding_ok f \<and> length (pcm_buffer f) > 0 then
       [Write_wav (output_base @ ''.wav'') (pcm_buffer f) DEFAULT_SAMPLE_RATE rom_basename
          output_base (dec absolute_msg_idx) cmt]
     else if decoding_ok f \<and> length (pcm_buffer f) = 0 then []
     else [Error_decoding_failed absolute_msg_idx])"

definition process_message :: "byte list \<Rightarrow> nat \<Rightarrow> nat \<Rightarrow> nat \<Rightarrow> nat \<Rightarrow> nat \<Rightarrow> nat
    \<Rightarrow> MessageMapping option \<Rightarrow> string \<Rightarrow> bool \<times> event list" where
  "process_message rom_data segment_start_offset segment_index_0_based msg_idx_in_segment
      absolute_msg_idx message_offset_in_segment next_message_offset_in_segment mapping
      rom_basename =
    (let start_address = segment_start_offset + message_offset_in_segment
     in if start_address \<ge> length rom_data then
          (True, [Warn_start_out_of_bounds start_address absolute_msg_idx
                    segment_index_0_based msg_idx_in_segment])
        else
          let message_mode = rom_data ! start_address;
              output_base = (case mapping of None \<Rightarrow>
                                default_filename_base segment_index_0_based msg_idx_in_segment
                             | Some m \<Rightarrow> output_filename_base m);
              cmt = (case mapping of None \<Rightarrow> None | Some m \<Rightarrow> comment m)
          in if message_mode = MODE_ADPCM then
               let f = adpcm_loop rom_data absolute_msg_idx
                         (initial_decode_state (start_address + 1))
               in (True, diag f @ adpcm_result f absolute_msg_idx output_base cmt rom_basename)
             else if message_mode = MODE_PCM then
               let end_offset = segment_start_offset + next_message_offset_in_segment;
                   message_end_offset =
                     (if end_offset > length rom_data then length rom_data else end_offset)
               in if message_end_offset \<le> start_address then
                    (True, [Warn_pcm_range absolute_msg_idx])
                  else
                    (True, [Save_raw_pcm (output_base @ ''.pcm'') start_address
                              message_end_offset])
             else
               (True, [Warn_unknown_mode message_mode absolute_msg_idx start_address]))"

section \<open>One record: listing or decoding\<close>

datatype HandleMessageResult = MSG_HANDLED_CONTINUE | MSG_HANDLED_TARGET_FOUND | MSG_HANDLED_ERROR

text \<open>
  The comment field of a listing line is built in \<open>comment_buffer[256]\<close> with
  \<open>strcpy\<close> and \<open>strcat\<close>. \<open>strcat_buf\<close> is \<open>strcat\<close> into that buffer: \<open>None\<close>
  when the result and its terminating NUL do not fit, where the behaviour of the C code is
  undefined.
\<close>

definition strcat_buf :: "string \<Rightarrow> string \<Rightarrow> string option" where
  "strcat_buf dst src = (if length dst + length src < 256 then Some (dst @ src) else None)"

definition build_comment :: "bool \<Rightarrow> byte \<Rightarrow> MessageMapping option \<Rightarrow> string option" where
  "build_comment mode_read_ok message_mode mapping =
    (let user_comment = (case mapping of None \<Rightarrow> None | Some m \<Rightarrow> comment m);
         pcm_already_in_user_comment =
           (case user_comment of None \<Rightarrow> False | Some u \<Rightarrow> strstr u ''(PCM)'');
         has_user_comment = (case user_comment of None \<Rightarrow> False | Some u \<Rightarrow> length u > 0);
         pcm_tag_added = (mode_read_ok \<and> message_mode = MODE_PCM \<and> \<not> pcm_already_in_user_comment);
         buf1 = (if pcm_tag_added then ''#'' @ '' (PCM)'' else ''#'')
     in case (if has_user_comment then user_comment else None) of
          Some u \<Rightarrow>
            (if pcm_tag_added \<or> buf1 = ''#''
             then strcat_buf (buf1 @ '' '') u
             else strcat_buf buf1 u)
        | None \<Rightarrow> (if \<not> pcm_tag_added then Some (buf1 @ '' '') else Some buf1))"

definition padding_tabs :: "string \<Rightarrow> string" where
  "padding_tabs output_base =
    (let filename_len = length output_base;
         num_stops = filename_len div TAB_WIDTH;
         target_stops = (LIST_FILENAME_ALIGN_WIDTH + TAB_WIDTH - 1) div TAB_WIDTH;
         tabs_to_print = (if num_stops < target_stops then target_stops - num_stops else 1)
     in replicate tabs_to_print (CHR 0x09))"

definition list_entry :: "byte list \<Rightarrow> nat \<Rightarrow> nat \<Rightarrow> nat \<Rightarrow> MessageMapping option
    \<Rightarrow> event list" where
  "list_entry rom_data start_address segment_index_0_based msg_idx_in_seg mapping =
    (let output_base = (case mapping of None \<Rightarrow>
                          default_filename_base segment_index_0_based msg_idx_in_seg
                        | Some m \<Rightarrow> output_filename_base m);
         mode_read_ok = (start_address < length rom_data);
         message_mode = (if mode_read_ok then rom_data ! start_address else 0xFF);
         warn = (if mode_read_ok then []
                 else [Warn_list_mode_byte segment_index_0_based msg_idx_in_seg])
     in case build_comment mode_read_ok message_mode mapping of
          None \<Rightarrow> warn @ [Comment_buffer_overrun]
        | Some comment_buffer \<Rightarrow>
            warn @ [Stdout (dec segment_index_0_based @ [CHR 0x09] @ dec msg_idx_in_seg
                            @ [CHR 0x09] @ output_base @ padding_tabs output_base
                            @ comment_buffer @ [CHR 0x0A])])"

text \<open>
  The offset table holds the big-endian 16-bit words read by \<open>read_u16be\<close>.
\<close>

definition read_u16be :: "byte list \<Rightarrow> nat \<Rightarrow> 16 word" where
  "read_u16be buffer i = push_bit 8 (ucast (buffer ! i)) OR ucast (buffer ! (i + 1))"

definition handle_message_iteration :: "byte list \<Rightarrow> nat \<Rightarrow> nat \<Rightarrow> nat \<Rightarrow> nat
    \<Rightarrow> 16 word list \<Rightarrow> nat \<Rightarrow> MappingTable \<Rightarrow> string \<Rightarrow> bool \<Rightarrow> bool \<Rightarrow> int
    \<Rightarrow> HandleMessageResult \<times> event list" where
  "handle_message_iteration rom_data segment_start_offset segment_index_0_based msg_idx_in_seg
      absolute_msg_idx offset_table message_count_in_segment mapping_table rom_basename
      list_mode quiet_mode target_message_idx =
    (let mapping = find_mapping mapping_table segment_index_0_based msg_idx_in_seg;
         relative_base_offset_words = unat (offset_table ! msg_idx_in_seg);
         message_offset_bytes = relative_base_offset_words * 2;
         start_address = segment_start_offset + message_offset_bytes
     in if list_mode then
          (MSG_HANDLED_CONTINUE,
           if \<not> quiet_mode
           then list_entry rom_data start_address segment_index_0_based msg_idx_in_seg mapping
           else [])
        else if target_message_idx < 0 \<or> int absolute_msg_idx = target_message_idx then
          let next_message_offset_bytes =
                (if msg_idx_in_seg + 1 < message_count_in_segment
                 then unat (offset_table ! (msg_idx_in_seg + 1)) * 2
                 else ROM_SEGMENT_SIZE);
              (success, evs) = process_message rom_data segment_start_offset
                 segment_index_0_based msg_idx_in_seg absolute_msg_idx message_offset_bytes
                 next_message_offset_bytes mapping rom_basename
          in if \<not> success then (MSG_HANDLED_ERROR, evs)
             else if target_message_idx \<ge> 0 \<and> int absolute_msg_idx = target_message_idx
             then (MSG_HANDLED_TARGET_FOUND, evs)
             else (MSG_HANDLED_CONTINUE, evs)
        else (MSG_HANDLED_CONTINUE, []))"

section \<open>The segment walk of \<open>main\<close>\<close>

datatype exit_code = EXIT_SUCCESS | EXIT_FAILURE

text \<open>
  The variables of \<open>main\<close> that the segment loop changes, with the events so far.
  \<open>run_config\<close> holds what stays fixed during the walk: the ROM bytes, the mapping
  table and the command line settings.
\<close>

record walk_state =
  absolute_msg_idx_counter :: nat
  target_found_and_processed :: bool
  exit_status :: exit_code
  out :: "event list"

record run_config =
  rom_image :: "byte list"
  mapping_table :: MappingTable
  rom_basename :: string
  list_mode :: bool
  quiet_mode :: bool
  target_message_idx :: int

text \<open>
  The inner \<open>for\<close> loop over the messages of a segment. It returns whether the loop
  was left with \<open>segment_error\<close> set, whether the target was found, and the events.
\<close>

function message_loop :: "run_config \<Rightarrow> nat \<Rightarrow> nat \<Rightarrow> nat \<Rightarrow> 16 word list \<Rightarrow> nat \<Rightarrow> nat
    \<Rightarrow> bool \<times> bool \<times> event list" where
  "message_loop cfg segment_start segment_index_0_based counter offset_table
      message_count_in_segment msg_idx_in_seg =
    (if msg_idx_in_seg < message_count_in_segment then
       (case handle_message_iteration (rom_image cfg) segment_start segment_index_0_based
               msg_idx_in_seg (counter + msg_idx_in_seg) offset_table
               message_count_in_segment (mapping_table cfg) (rom_basename cfg)
               (list_mode cfg) (quiet_mode cfg) (target_message_idx cfg) of
          (MSG_HANDLED_ERROR, evs) \<Rightarrow> (True, False, evs)
        | (MSG_HANDLED_TARGET_FOUND, evs) \<Rightarrow> (False, True, evs)
        | (MSG_HANDLED_CONTINUE, evs) \<Rightarrow>
            (case message_loop cfg segment_start segment_index_0_based counter offset_table
                    message_count_in_segment (msg_idx_in_seg + 1) of
               (err, found, evs') \<Rightarrow> (err, found, evs @ evs')))
     else (False, False, []))"
  by pat_completeness auto
termination
  by (relation "measure (\<lambda>(cfg, ss, si, c, t, n, i). n - i)") auto

declare message_loop.simps [simp del]

function segment_loop :: "run_config \<Rightarrow> nat \<Rightarrow> nat \<Rightarrow> walk_state \<Rightarrow> walk_state" where
  "segment_loop cfg segment_start segment_index_0_based w =
    (if segment_start < length (rom_image cfg) then
       (if segment_start + 5 > length (rom_image cfg) then
          (if segment_index_0_based > 0 then w
           else w\<lparr>exit_status := EXIT_FAILURE, out := out w @ [Error_rom_too_small]\<rparr>)
        else if take 4 (drop (segment_start + 1) (rom_image cfg)) \<noteq> ROM_MAGIC then
          (if segment_index_0_based = 0
           then w\<lparr>exit_status := EXIT_FAILURE, out := out w @ [Error_invalid_magic]\<rparr>
           else w)
        else
          let last_message_index = rom_image cfg ! segment_start;
              message_count_in_segment = unat last_message_index + 1;
              offset_table_start = segment_start + 5;
              offset_table_size = message_count_in_segment * 2
          in if offset_table_start + offset_table_size > length (rom_image cfg) \<or>
                offset_table_start + offset_table_size > segment_start + ROM_SEGMENT_SIZE
             then w\<lparr>exit_status := EXIT_FAILURE,
                    out := out w @ [Error_offset_table offset_table_size
                                      message_count_in_segment segment_index_0_based]\<rparr>
             else
               let offset_table = map (\<lambda>k. read_u16be (rom_image cfg) (offset_table_start + k * 2))
                                      [0..<message_count_in_segment];
                   (segment_error, found, evs) =
                     message_loop cfg segment_start segment_index_0_based
                       (absolute_msg_idx_counter w) offset_table message_count_in_segment 0;
                   w' = w\<lparr>absolute_msg_idx_counter :=
                            absolute_msg_idx_counter w + message_count_in_segment,
                          target_found_and_processed :=
                            (target_found_and_processed w \<or> found),
                          exit_status := (if segment_error then EXIT_FAILURE else exit_status w),
                          out := out w @ evs\<rparr>
               in if segment_error \<or> target_found_and_processed w'
                  then w'
                  else segment_loop cfg (segment_start + ROM_SEGMENT_SIZE)
                         (segment_index_0_based + 1) w')
     else w)"
  by pat_completeness auto
termination
  by (relation "measure (\<lambda>(cfg, ss, si, w). length (rom_image cfg) - ss)")
    (auto simp: ROM_SEGMENT_SIZE_def)

declare segment_loop.simps [simp del]

text \<open>
  \<open>main\<close> after the command line and the mapping file have been read:
  \<open>load_rom_data\<close> rejects an empty file, list mode prints its header, the segments are
  walked, and a target that was asked for and not found is an error.
\<close>

definition initial_walk_state :: "run_config \<Rightarrow> walk_state" where
  "initial_walk_state cfg =
    \<lparr>absolute_msg_idx_counter = 0, target_found_and_processed = False,
     exit_status = EXIT_SUCCESS,
     out = (if list_mode cfg \<and> \<not> quiet_mode cfg
            then [Stdout (''# ROM: '' @ rom_basename cfg @ [CHR 0x0A, CHR 0x0A])] else [])\<rparr>"

definition main_run :: "run_config \<Rightarrow> exit_code \<times> event list" where
  "main_run cfg =
    (if rom_image cfg = [] then (EXIT_FAILURE, [Error_invalid_rom_size])
     else
       let w = segment_loop cfg 0 0 (initial_walk_state cfg)
       in if \<not> list_mode cfg \<and> target_message_idx cfg \<ge> 0 \<and>
             \<not> target_found_and_processed w \<and> exit_status w \<noteq> EXIT_FAILURE
          then (EXIT_FAILURE, out w @ [Error_target_not_found (target_message_idx cfg)])
          else (exit_status w, out w))"

section \<open>Notions used in the statements\<close>

text \<open>
  \<open>loop_iter k\<close> is the state after at most \<open>k\<close> passes through the loop body: the
  states the decoder is in "during decoding". The loop's result is one of them.
\<close>

primrec loop_iter :: "nat \<Rightarrow> byte list \<Rightarrow> nat \<Rightarrow> decode_state \<Rightarrow> decode_state" where
  "loop_iter 0 rom_data absolute_msg_idx s = s"
| "loop_iter (Suc k) rom_data absolute_msg_idx s =
    (if loop_cond rom_data s
     then loop_iter k rom_data absolute_msg_idx (loop_body rom_data absolute_msg_idx s)
     else s)"

definition adpcm_in_range :: "AdpcmState \<Rightarrow> bool" where
  "adpcm_in_range st \<longleftrightarrow>
     0 \<le> adpcm_state st \<and> adpcm_state st \<le> 15 \<and>
     -32768 \<le> current_sample st \<and> current_sample st \<le> 32767"

definition table_index_ok :: "AdpcmState \<Rightarrow> byte \<Rightarrow> bool" where
  "table_index_ok st nibble \<longleftrightarrow>
     0 \<le> adpcm_state st \<and> nat (adpcm_state st) < length step_table \<and>
     unat nibble < length (step_table ! nat (adpcm_state st)) \<and>
     unat nibble < length state_table"

text \<open>
  The nibbles of a byte sequence in decoding order (high nibble first), the decoder run
  over a list of nibbles, and the nibbles of a block of \<open>m\<close> nibbles: all nibbles of
  the first \<open>m div 2\<close> bytes and, for odd \<open>m\<close>, the high nibble of the next byte.
\<close>

fun nibbles_of :: "byte list \<Rightarrow> byte list" where
  "nibbles_of [] = []"
| "nibbles_of (b # bs) = (drop_bit 4 b AND 0x0F) # (b AND 0x0F) # nibbles_of bs"

fun decode_nibbles :: "byte list \<Rightarrow> AdpcmState \<Rightarrow> PcmBuffer \<Rightarrow> AdpcmState \<times> PcmBuffer" where
  "decode_nibbles [] st buffer = (st, buffer)"
| "decode_nibbles (n # ns) st buffer =
     (case decode_nibble n st buffer of (st', buffer') \<Rightarrow> decode_nibbles ns st' buffer')"

definition block_nibbles :: "nat \<Rightarrow> byte list \<Rightarrow> byte list" where
  "block_nibbles m bytes =
    (if even m then nibbles_of (take (m div 2) bytes)
     else nibbles_of (take (m div 2) bytes) @ [drop_bit 4 (bytes ! (m div 2)) AND 0x0F])"

text \<open>
  The ROM of the first end-to-end scenario: header \<open>00 5A A5 69 55\<close> and offset table
  \<open>00 03\<close>. Word offset 3 is byte offset 6, the second byte of the table itself, so the
  mode byte that list mode reads is \<open>03\<close>; the scenario is evaluated both on these seven
  bytes and with a payload byte \<open>00\<close> after them.
\<close>

definition single_message_rom :: "byte list" where
  "single_message_rom = [0x00, 0x5A, 0xA5, 0x69, 0x55, 0x00, 0x03]"

definition listing_config :: "byte list \<Rightarrow> string \<Rightarrow> run_config" where
  "listing_config rom_data basename =
    \<lparr>rom_image = rom_data, mapping_table = [], rom_basename = basename, list_mode = True,
     quiet_mode = False, target_message_idx = -1\<rparr>"

definition TAB :: char where "TAB = CHR 0x09"

definition NEWLINE :: char where "NEWLINE = CHR 0x0A"


definition mapped_base :: "MessageMapping option \<Rightarrow> nat \<Rightarrow> nat \<Rightarrow> string" where
  "mapped_base mapping segment_index_0_based msg_idx_in_seg =
    (case mapping of None \<Rightarrow> default_filename_base segment_index_0_based msg_idx_in_seg
     | Some m \<Rightarrow> output_filename_base m)"




text \<open>
  \<open>decode_inv\<close> holds throughout a decode: the loop is left by \<open>break\<close> only where
  the length byte of a long or repeat block is missing, with \<open>decoding_ok\<close> cleared and
  the one warning \<open>trunc_warning\<close> printed at the end of the ROM; otherwise
  \<open>decoding_ok\<close> is set and nothing has been printed. \<open>is_write_wav\<close> picks the
  calls of the WAV sink out of a list of events. Three single-message ROMs, each
  with its message at byte offset 8: a silence command and then the end of the ROM, a long
  block of four nibbles with one data byte, and a long block command without its length
  byte.
\<close>

definition is_write_wav :: "event \<Rightarrow> bool" where
  "is_write_wav e = (case e of Write_wav n b r t k c x \<Rightarrow> True | _ \<Rightarrow> False)"

definition trunc_warning :: "byte \<Rightarrow> nat \<Rightarrow> event" where
  "trunc_warning c a =
     (if c \<le> 0xBF then Warn_end_of_rom_long c a else Warn_end_of_rom_repeat c a)"

definition decode_inv :: "byte list \<Rightarrow> nat \<Rightarrow> decode_state \<Rightarrow> bool" where
  "decode_inv rom_data a s =
     (if broke s then
        \<not> decoding_ok s \<and> \<not> end_of_message s \<and> current_pos s = length rom_data \<and>
        diag s = [trunc_warning (rom_data ! (length rom_data - 1)) a]
      else decoding_ok s \<and> diag s = [])"

definition decode_config :: "byte list \<Rightarrow> string \<Rightarrow> run_config" where
  "decode_config rom_data basename =
    \<lparr>rom_image = rom_data, mapping_table = [], rom_basename = basename, list_mode = False,
     quiet_mode = False, target_message_idx = -1\<rparr>"

definition silence_then_end_of_rom :: "byte list" where
  "silence_then_end_of_rom = [0x00, 0x5A, 0xA5, 0x69, 0x55, 0x00, 0x04, 0xFF, 0x00, 0x01]"

definition block_cut_short :: "byte list" where
  "block_cut_short = [0x00, 0x5A, 0xA5, 0x69, 0x55, 0x00, 0x04, 0xFF, 0x00, 0x80, 0x03, 0x77]"

definition length_byte_cut :: "byte list" where
  "length_byte_cut = [0x00, 0x5A, 0xA5, 0x69, 0x55, 0x00, 0x04, 0xFF, 0x00, 0x01, 0x80]"





section \<open>The loop and its passes\<close>

lemma adpcm_loop_is_iter:
  "\<exists>k. adpcm_loop rom a s = loop_iter k rom a s \<and> \<not> loop_cond rom (loop_iter k rom a s)"
proof (induction rom a s rule: adpcm_loop.induct)
  case (1 rom a s)
  show ?case
  proof (cases "loop_cond rom s")
    case True
    from 1[OF True] obtain k where
      "adpcm_loop rom a (loop_body rom a s) = loop_iter k rom a (loop_body rom a s)"
      "\<not> loop_cond rom (loop_iter k rom a (loop_body rom a s))"
      by blast
    with True have "adpcm_loop rom a s = loop_iter (Suc k) rom a s \<and>
        \<not> loop_cond rom (loop_iter (Suc k) rom a s)"
      by (simp add: adpcm_loop.simps[of rom a s])
    then show ?thesis by blast
  next
    case False
    then have "adpcm_loop rom a s = loop_iter 0 rom a s \<and> \<not> loop_cond rom (loop_iter 0 rom a s)"
      by (simp add: adpcm_loop.simps[of rom a s])
    then show ?thesis by blast
  qed
qed

lemma adpcm_loop_iter: "adpcm_loop rom a (loop_iter k rom a s) = adpcm_loop rom a s"
proof (induction k arbitrary: s)
  case 0
  show ?case by simp
next
  case (Suc k)
  show ?case
  proof (cases "loop_cond rom s")
    case True
    then show ?thesis
      using Suc[of "loop_body rom a s"] by (simp add: adpcm_loop.simps[of rom a s])
  next
    case False
    then show ?thesis by simp
  qed
qed

lemma loop_iter_add:
  "loop_iter (j + k) rom a s = loop_iter k rom a (loop_iter j rom a s)"
proof (induction j arbitrary: s)
  case 0
  show ?case by simp
next
  case (Suc j)
  show ?case
  proof (cases "loop_cond rom s")
    case True
    then show ?thesis using Suc by simp
  next
    case False
    then have "loop_iter k rom a s = s" by (cases k) simp_all
    with False show ?thesis by simp
  qed
qed

section \<open>Properties of the nibble decoder\<close>

lemma add_silence_replicate: "add_silence n buffer = buffer @ replicate n 0"
  by (induction n arbitrary: buffer) (simp_all add: add_pcm_sample_def replicate_app_Cons_same)

lemma int16_cast_id: "-32768 \<le> x \<Longrightarrow> x \<le> 32767 \<Longrightarrow> int16_cast x = x"
  by (simp add: int16_cast_def)

lemma int8_cast_id: "-128 \<le> x \<Longrightarrow> x \<le> 127 \<Longrightarrow> int8_cast x = x"
  by (simp add: int8_cast_def)

lemma decode_nibble_in_range: "adpcm_in_range (fst (decode_nibble nibble st buffer))"
  by (simp add: decode_nibble_def Let_def adpcm_in_range_def int16_cast_id int8_cast_id)

lemma high_nibble_bound: "unat (drop_bit 4 (b::byte) AND 0x0F) < 16"
proof -
  have "unat (drop_bit 4 b AND 15) \<le> unat (15 :: byte)"
    by (rule word_and_le1 [THEN word_le_nat_alt [THEN iffD1]])
  then show ?thesis by simp
qed

lemma low_nibble_bound: "unat ((b::byte) AND 0x0F) < 16"
proof -
  have "unat (b AND 15) \<le> unat (15 :: byte)"
    by (rule word_and_le1 [THEN word_le_nat_alt [THEN iffD1]])
  then show ?thesis by simp
qed

lemma step_table_rows:
  assumes "i < 16"
  shows "length (step_table ! i) = 16"
proof -
  have "\<forall>r \<in> set step_table. length r = 16"
    by (simp add: step_table_def)
  moreover have "length step_table = 16" by (simp add: step_table_def)
  ultimately show ?thesis using assms by (metis nth_mem)
qed

lemma table_index_ok_iff:
  "adpcm_in_range st \<Longrightarrow> unat nibble < 16 \<Longrightarrow> table_index_ok st nibble"
proof -
  assume r: "adpcm_in_range st" and n: "unat nibble < 16"
  from r have i: "nat (adpcm_state st) < 16" "0 \<le> adpcm_state st"
    unfolding adpcm_in_range_def by linarith+
  have "length step_table = 16" "length state_table = 16"
    by (simp_all add: step_table_def state_table_def)
  with i n step_table_rows[OF i(1)] show ?thesis
    by (simp add: table_index_ok_def)
qed

lemma nibble_phase_adpcm_in_range:
  "adpcm_in_range (adpcm s) \<Longrightarrow> adpcm_in_range (adpcm (nibble_phase rom a s))"
  using decode_nibble_in_range
  by (simp add: nibble_phase_def Let_def case_prod_beta)

lemma command_phase_adpcm: "adpcm (command_phase rom a s) = adpcm s"
  by (simp add: command_phase_def Let_def)

lemma loop_body_adpcm_in_range:
  "adpcm_in_range (adpcm s) \<Longrightarrow> adpcm_in_range (adpcm (loop_body rom a s))"
  by (simp add: loop_body_def nibble_phase_adpcm_in_range command_phase_adpcm)

lemma loop_iter_adpcm_in_range:
  "adpcm_in_range (adpcm s) \<Longrightarrow> adpcm_in_range (adpcm (loop_iter k rom a s))"
  by (induction k arbitrary: s) (simp_all add: loop_body_adpcm_in_range)

lemma nibble_phase_frame:
  assumes "current_pos s < length rom"
  shows "diag (nibble_phase rom a s) = diag s"
    and "decoding_ok (nibble_phase rom a s) = decoding_ok s"
    and "end_of_message (nibble_phase rom a s) = end_of_message s"
    and "broke (nibble_phase rom a s) = broke s"
  using assms by (simp_all add: nibble_phase_def Let_def case_prod_beta)

lemma loop_body_diag:
  assumes "loop_cond rom s"
  shows "set (diag (loop_body rom a s)) \<subseteq>
    set (diag s) \<union> {Warn_end_of_rom_long (rom ! current_pos s) a,
                     Warn_end_of_rom_repeat (rom ! current_pos s) a}"
proof (cases "nibble_count s > 0")
  case True
  with assms show ?thesis
    by (auto simp: loop_body_def loop_cond_def nibble_phase_frame)
next
  case False
  from assms have p: "current_pos s < length rom" by (simp add: loop_cond_def)
  from False have e: "loop_body rom a s = command_phase rom a s" by (simp add: loop_body_def)
  show ?thesis
    unfolding e
    by (cases "rom ! current_pos s" rule: opcode_classes)
      (auto simp: command_phase_end[OF p] command_phase_silence[OF p] command_phase_short[OF p]
        command_phase_long[OF p] command_phase_repeat[OF p] break_unless_ok_def)
qed

lemma adpcm_loop_diag:
  "Warn_end_of_rom_nibble a \<notin> set (diag s) \<Longrightarrow>
   Warn_end_of_rom_nibble a \<notin> set (diag (adpcm_loop rom a s))"
proof (induction rom a s rule: adpcm_loop.induct)
  case (1 rom a s)
  show ?case
  proof (cases "loop_cond rom s")
    case True
    from loop_body_diag[OF True, of a] 1(2)
    have "Warn_end_of_rom_nibble a \<notin> set (diag (loop_body rom a s))" by auto
    from 1(1)[OF True this] True show ?thesis
      by (simp add: adpcm_loop.simps[of rom a s])
  next
    case False
    with 1(2) show ?thesis by (simp add: adpcm_loop.simps[of rom a s])
  qed
qed

section \<open>Claims about the ADPCM decoder\<close>

text \<open>
  C7. For every silence command byte \<open>c\<close> in \<open>0x01..0x3F\<close>, the pass through the loop
  body that reads it appends exactly \<open>8 * c\<close> samples of value 0 to the PCM buffer and
  leaves \<open>current_sample\<close> and the step index unchanged.
\<close>

theorem silence_command_effect:
  assumes "nibble_count s = 0" and "current_pos s < length rom_data"
    and "0x01 \<le> rom_data ! current_pos s" and "rom_data ! current_pos s \<le> 0x3F"
  shows "pcm_buffer (loop_body rom_data a s) =
           pcm_buffer s @ replicate (8 * unat (rom_data ! current_pos s)) 0 \<and>
         adpcm (loop_body rom_data a s) = adpcm s"
proof -
  from assms(3) have nz: "rom_data ! current_pos s \<noteq> 0x00"
    by (simp add: byte_not_zero)
  have "loop_body rom_data a s = command_phase rom_data a s"
    using assms(1) by (simp add: loop_body_def)
  also note command_phase_silence[OF assms(2) nz assms(4), of a]
  finally show ?thesis
    by (simp add: break_unless_ok_def add_silence_replicate mult.commute)
qed

theorem silence_command_effect_witness:
  "pcm_buffer (loop_body [0x02, 0x00] 0 (initial_decode_state 0)) = replicate 16 0 \<and>
   adpcm (loop_body [0x02, 0x00] 0 (initial_decode_state 0)) =
     \<lparr>current_sample = 0, adpcm_state = 0\<rparr>"
  using silence_command_effect[of "initial_decode_state 0" "[0x02, 0x00]" 0]
  by (simp add: initial_decode_state_def init_pcm_buffer_def)

text \<open>
  C9. The truncation check inside the nibble decoding branch (the warning "Unexpected end
  of ROM data while reading ADPCM data nibble") cannot fire: whenever the loop body runs
  with \<open>nibble_count > 0\<close>, the loop condition has already established
  \<open>current_pos < rom_size\<close>; the pass neither prints a warning nor clears
  \<open>decoding_ok\<close> nor breaks, and no decode of any ROM ever prints that warning.
\<close>

theorem nibble_truncation_check_unreachable:
  assumes "loop_cond rom_data s" and "nibble_count s > 0"
  shows "current_pos s < length rom_data \<and>
         diag (loop_body rom_data a s) = diag s \<and>
         decoding_ok (loop_body rom_data a s) = decoding_ok s \<and>
         \<not> broke (loop_body rom_data a s) \<and>
         Warn_end_of_rom_nibble a \<notin>
           set (diag (adpcm_loop rom_data a (initial_decode_state pos)))"
proof -
  from assms(1) have p: "current_pos s < length rom_data" and b: "\<not> broke s"
    by (simp_all add: loop_cond_def)
  from assms(2) have e: "loop_body rom_data a s = nibble_phase rom_data a s"
    by (simp add: loop_body_def)
  have "Warn_end_of_rom_nibble a \<notin> set (diag (initial_decode_state pos))"
    by (simp add: initial_decode_state_def)
  then have "Warn_end_of_rom_nibble a \<notin>
      set (diag (adpcm_loop rom_data a (initial_decode_state pos)))"
    by (rule adpcm_loop_diag)
  with p b show ?thesis
    by (simp add: e nibble_phase_frame)
qed

theorem nibble_truncation_check_unreachable_witness:
  "diag (loop_body [0x80, 0x02, 0x77] 0 (loop_body [0x80, 0x02, 0x77] 0 (initial_decode_state 0))) = [] \<and>
   \<not> broke (loop_body [0x80, 0x02, 0x77] 0 (loop_body [0x80, 0x02, 0x77] 0 (initial_decode_state 0))) \<and>
   Warn_end_of_rom_nibble 0 \<notin> set (diag (adpcm_loop [0x80, 0x02, 0x77] 0 (initial_decode_state 0)))"
proof -
  let ?rom = "[0x80, 0x02, 0x77] :: byte list"
  let ?s = "loop_body ?rom 0 (initial_decode_state 0)"
  have s: "?s = (initial_decode_state 0)\<lparr>current_pos := 2, nibble_count := 3\<rparr>"
    by (simp add: loop_body_def command_phase_def initial_decode_state_def Let_def)
  have "loop_cond ?rom ?s" "nibble_count ?s > 0"
    unfolding s by (simp_all add: loop_cond_def initial_decode_state_def)
  note u = nibble_truncation_check_unreachable[OF this, of 0 0]
  have "diag ?s = []"
    unfolding s by (simp add: initial_decode_state_def)
  with u show ?thesis by simp
qed

text \<open>
  C4. For every ROM, at every point of the decode (after any number of passes through
  the loop, and between the two nibbles of one pass) the step index lies in \<open>[0, 15]\<close>
  and \<open>current_sample\<close> in \<open>[-32768, 32767]\<close>, and both nibbles taken from a data
  byte lie in \<open>[0, 15]\<close>: each lookup in \<open>step_table\<close> and \<open>state_table\<close> is within
  the tables.
\<close>

theorem adpcm_state_stays_in_range:
  "adpcm_in_range (adpcm (loop_iter k rom_data a (initial_decode_state pos))) \<and>
   (let s = loop_iter k rom_data a (initial_decode_state pos);
        data_byte = rom_data ! current_pos s;
        nibble1 = drop_bit 4 data_byte AND 0x0F;
        nibble2 = data_byte AND 0x0F;
        a1 = fst (decode_nibble nibble1 (adpcm s) (pcm_buffer s));
        a2 = fst (decode_nibble nibble2 a1 buffer)
    in table_index_ok (adpcm s) nibble1 \<and> adpcm_in_range a1 \<and>
       table_index_ok a1 nibble2 \<and> adpcm_in_range a2)"
proof -
  have "adpcm_in_range (adpcm (initial_decode_state pos))"
    by (simp add: initial_decode_state_def adpcm_in_range_def)
  then have r: "adpcm_in_range (adpcm (loop_iter k rom_data a (initial_decode_state pos)))"
    by (rule loop_iter_adpcm_in_range)
  show ?thesis
    using r by (simp add: Let_def decode_nibble_in_range table_index_ok_iff
        high_nibble_bound low_nibble_bound)
qed

theorem adpcm_state_stays_in_range_witness:
  "adpcm_in_range (adpcm (loop_iter 3 [0x80, 0x02, 0x77, 0x70, 0x00] 0 (initial_decode_state 0))) \<and>
   adpcm (loop_iter 3 [0x80, 0x02, 0x77, 0x70, 0x00] 0 (initial_decode_state 0)) =
     \<lparr>current_sample = 62, adpcm_state = 9\<rparr>"
proof -
  have "adpcm (loop_iter 3 [0x80, 0x02, 0x77, 0x70, 0x00] 0 (initial_decode_state 0)) =
     \<lparr>current_sample = 62, adpcm_state = 9\<rparr>"
    by code_simp
  with adpcm_state_stays_in_range[of 3 "[0x80, 0x02, 0x77, 0x70, 0x00]" 0 0]
  show ?thesis by (simp add: Let_def)
qed

text \<open>
  C1 (the code departs from the claim). The stream \<open>C8 01 77 00\<close> has repeat field
  \<open>r = 1\<close> and a block of two nibbles. The claim asks for \<open>r + 1 = 2\<close> plays, four
  samples; the decoder plays the block once and stops with two samples. With \<open>r = 2\<close>
  (\<open>D0\<close>) the block is played twice, not three times.
\<close>

theorem repeat_field_one_plays_once:
  "pcm_buffer (adpcm_loop [0xC8, 0x01, 0x77, 0x00] 0 (initial_decode_state 0)) = [1280, 3712] \<and>
   end_of_message (adpcm_loop [0xC8, 0x01, 0x77, 0x00] 0 (initial_decode_state 0)) \<and>
   pcm_buffer (adpcm_loop [0xD0, 0x01, 0x77, 0x00] 0 (initial_decode_state 0)) =
     [1280, 3712, 7936, 16128]"
  by code_simp

text \<open>
  C3 (the code departs from the claim). The stream \<open>80 06 77 77 77 80 00\<close> decodes the
  nibbles 7, 7, 7, 7, 7, 7, 8. The last nibble leaves \<open>current_sample = 451\<close>, whose
  scaled value \<open>451 * 128 = 57728\<close> clamps to 32767; the decoder stores \<open>-7808\<close>, the
  low 16 bits of the product, because the difference for that nibble is negative.
\<close>

theorem scaled_sample_wraps_around:
  "pcm_buffer (adpcm_loop [0x80, 0x06, 0x77, 0x77, 0x77, 0x80, 0x00] 0 (initial_decode_state 0))
     = [1280, 3712, 7936, 16128, 31104, 32767, - 7808] \<and>
   current_sample (adpcm (adpcm_loop [0x80, 0x06, 0x77, 0x77, 0x77, 0x80, 0x00] 0
     (initial_decode_state 0))) = 451"
  by code_simp

section \<open>Data blocks\<close>

lemma length_nibbles_of: "length (nibbles_of bs) = 2 * length bs"
  by (induction bs) simp_all

lemma decode_nibble_length: "length (snd (decode_nibble n st buffer)) = length buffer + 1"
  by (simp add: decode_nibble_def Let_def add_pcm_sample_def)

lemma decode_nibbles_length:
  "length (snd (decode_nibbles ns st buffer)) = length buffer + length ns"
proof (induction ns arbitrary: st buffer)
  case Nil
  show ?case by simp
next
  case (Cons n ns)
  obtain st' b' where d: "decode_nibble n st buffer = (st', b')" by (cases "decode_nibble n st buffer")
  with decode_nibble_length[of n st buffer] have "length b' = length buffer + 1" by simp
  with Cons[of st' b'] d show ?case by simp
qed

lemma nibble_phase_plain:
  assumes "current_pos s < length rom" "repeat_count s = 0" "nibble_count s > 0"
  shows "nibble_phase rom a s =
    s\<lparr>current_pos := current_pos s + 1,
      adpcm := fst (decode_nibbles (take (nibble_count s) (nibbles_of [rom ! current_pos s]))
                 (adpcm s) (pcm_buffer s)),
      pcm_buffer := snd (decode_nibbles (take (nibble_count s) (nibbles_of [rom ! current_pos s]))
                 (adpcm s) (pcm_buffer s)),
      nibble_count := nibble_count s - 2\<rparr>"
proof (cases "nibble_count s = 1")
  case True
  with assms show ?thesis
    by (simp add: nibble_phase_def Let_def case_prod_beta)
next
  case False
  define m where "m = nibble_count s - 2"
  from False assms(3) have m: "nibble_count s = Suc (Suc m)"
    unfolding m_def by arith
  with assms show ?thesis
    by (simp add: nibble_phase_def Let_def case_prod_beta)
qed

lemma decode_nibbles_append:
  "decode_nibbles (xs @ ys) st buffer =
     decode_nibbles ys (fst (decode_nibbles xs st buffer)) (snd (decode_nibbles xs st buffer))"
  by (induction xs arbitrary: st buffer) (simp_all add: case_prod_beta)

lemma nibble_run:
  assumes "repeat_count s = 0" "\<not> broke s" "\<not> end_of_message s"
    and "j \<le> (nibble_count s + 1) div 2" and "current_pos s + j \<le> length rom"
  shows "loop_iter j rom a s =
    s\<lparr>current_pos := current_pos s + j,
      adpcm := fst (decode_nibbles (take (min (nibble_count s) (2 * j))
                 (nibbles_of (drop (current_pos s) rom))) (adpcm s) (pcm_buffer s)),
      pcm_buffer := snd (decode_nibbles (take (min (nibble_count s) (2 * j))
                 (nibbles_of (drop (current_pos s) rom))) (adpcm s) (pcm_buffer s)),
      nibble_count := nibble_count s - 2 * j\<rparr>"
  using assms
proof (induction j arbitrary: s)
  case 0
  show ?case by simp
next
  case (Suc j)
  from Suc.prems have p: "current_pos s < length rom" and n: "nibble_count s > 0"
    by simp_all
  with Suc.prems have c: "loop_cond rom s" by (simp add: loop_cond_def)
  let ?b = "rom ! current_pos s"
  let ?s1 = "nibble_phase rom a s"
  note e = nibble_phase_plain[OF p Suc.prems(1) n, of a]
  have d: "drop (current_pos s) rom = ?b # drop (current_pos s + 1) rom"
    using p by (simp add: Cons_nth_drop_Suc)
  have i: "loop_iter (Suc j) rom a s = loop_iter j rom a ?s1"
    using c n by (simp add: loop_body_def)
  have pre: "repeat_count ?s1 = 0" "\<not> broke ?s1" "\<not> end_of_message ?s1"
    "j \<le> (nibble_count ?s1 + 1) div 2" "current_pos ?s1 + j \<le> length rom"
    using Suc.prems unfolding e by simp_all
  have t: "take (min (nibble_count s) (2 * Suc j)) (nibbles_of (drop (current_pos s) rom)) =
      take (nibble_count s) (nibbles_of [?b]) @
      take (min (nibble_count s - 2) (2 * j)) (nibbles_of (drop (current_pos s + 1) rom))"
  proof (cases "nibble_count s = 1")
    case True
    then show ?thesis by (simp add: d)
  next
    case False
    define m where "m = nibble_count s - 2"
    from False n have m: "nibble_count s = Suc (Suc m)"
      unfolding m_def by arith
    then show ?thesis by (simp add: d)
  qed
  show ?case
    unfolding i Suc.IH[OF pre] t decode_nibbles_append
    unfolding e by simp
qed

lemma take_nibbles_of:
  "(m + 1) div 2 \<le> length bytes \<Longrightarrow> take m (nibbles_of bytes) = block_nibbles m bytes"
proof (induction bytes arbitrary: m rule: nibbles_of.induct)
  case 1
  then have "m = 0" by simp
  then show ?case by (simp add: block_nibbles_def)
next
  case (2 b bs)
  show ?case
  proof (cases "m < 2")
    case True
    then have "m = 0 \<or> m = 1" by arith
    then show ?thesis by (auto simp: block_nibbles_def)
  next
    case False
    define k where "k = m - 2"
    from False have m: "m = Suc (Suc k)" unfolding k_def by arith
    from 2(2) m have "(k + 1) div 2 \<le> length bs" by simp
    from 2(1)[OF this] show ?thesis
      by (simp add: m block_nibbles_def)
  qed
qed

text \<open>
  C6. After a long block command byte in \<open>0x80..0xBF\<close> followed by a length byte
  \<open>n\<close>, with the data bytes of the block inside the ROM, the decoder emits exactly
  \<open>n + 1\<close> samples while consuming exactly \<open>(n + 2) div 2\<close> data bytes, the ceiling
  of \<open>(n + 1) / 2\<close>; it stays in the data state for all of them and is back in the
  command state afterwards. The samples are the decoding of the block's nibbles: when
  \<open>n + 1\<close> is odd the high nibble of the final byte is decoded and its low nibble is
  not.
\<close>

theorem long_block_consumption:
  assumes "loop_cond rom_data s" and "nibble_count s = 0" and "decoding_ok s"
    and "0x80 \<le> rom_data ! current_pos s" and "rom_data ! current_pos s \<le> 0xBF"
    and "current_pos s + 2 + (unat (rom_data ! (current_pos s + 1)) + 2) div 2
           \<le> length rom_data"
  shows "let n = unat (rom_data ! (current_pos s + 1));
             bytes = (n + 2) div 2;
             s' = loop_iter (1 + bytes) rom_data a s
         in current_pos s' = current_pos s + 2 + bytes \<and>
            nibble_count s' = 0 \<and>
            length (pcm_buffer s') = length (pcm_buffer s) + (n + 1) \<and>
            (adpcm s', pcm_buffer s') =
               decode_nibbles (block_nibbles (n + 1) (drop (current_pos s + 2) rom_data))
                 (adpcm s) (pcm_buffer s) \<and>
            (\<forall>j < bytes. nibble_count (loop_iter (1 + j) rom_data a s) > 0)"
proof -
  define n where "n = unat (rom_data ! (current_pos s + 1))"
  define bytes where "bytes = (n + 2) div 2"
  define s1 where "s1 = s\<lparr>current_pos := current_pos s + 2, nibble_count := n + 1,
    repeat_count := 0\<rparr>"
  from assms(1) have p: "current_pos s < length rom_data" and b: "\<not> broke s"
    and e: "\<not> end_of_message s"
    by (simp_all add: loop_cond_def)
  from assms(6) have q: "\<not> current_pos s + 1 \<ge> length rom_data" by simp
  have body: "loop_body rom_data a s = s1"
    using assms(2,3) q command_phase_long[OF p assms(4,5), of a]
    by (simp add: loop_body_def break_unless_ok_def s1_def n_def)
  have iter: "loop_iter (1 + j) rom_data a s = loop_iter j rom_data a s1" for j
    using assms(1) body by simp
  have pre: "repeat_count s1 = 0" "\<not> broke s1" "\<not> end_of_message s1"
    using b e by (simp_all add: s1_def)
  have run: "loop_iter j rom_data a s1 =
      s1\<lparr>current_pos := current_pos s1 + j,
        adpcm := fst (decode_nibbles (take (min (nibble_count s1) (2 * j))
                 (nibbles_of (drop (current_pos s1) rom_data))) (adpcm s1) (pcm_buffer s1)),
        pcm_buffer := snd (decode_nibbles (take (min (nibble_count s1) (2 * j))
                 (nibbles_of (drop (current_pos s1) rom_data))) (adpcm s1) (pcm_buffer s1)),
        nibble_count := nibble_count s1 - 2 * j\<rparr>" if "j \<le> bytes" for j
  proof (rule nibble_run[OF pre])
    show "j \<le> (nibble_count s1 + 1) div 2" using that by (simp add: s1_def bytes_def)
    show "current_pos s1 + j \<le> length rom_data"
      using that assms(6) by (simp add: s1_def bytes_def n_def)
  qed
  have m: "min (Suc n) (2 * bytes) = Suc n" "Suc n - 2 * bytes = 0"
    unfolding bytes_def by arith+
  have enough: "(n + 1 + 1) div 2 \<le> length (drop (current_pos s + 2) rom_data)"
    using assms(6) by (simp add: n_def)
  have tk: "take (Suc n) (nibbles_of (drop (Suc (Suc (current_pos s))) rom_data)) =
      block_nibbles (Suc n) (drop (Suc (Suc (current_pos s))) rom_data)"
    using take_nibbles_of[OF enough] by simp
  let ?s' = "loop_iter (1 + bytes) rom_data a s"
  let ?R = "decode_nibbles (block_nibbles (n + 1) (drop (current_pos s + 2) rom_data))
     (adpcm s) (pcm_buffer s)"
  have s': "?s' = s1\<lparr>current_pos := current_pos s + 2 + bytes, adpcm := fst ?R,
      pcm_buffer := snd ?R, nibble_count := 0\<rparr>"
    unfolding iter run[OF order_refl]
    by (simp add: s1_def m tk)
  have len: "length (snd ?R) = length (pcm_buffer s) + (n + 1)"
  proof -
    have "length (block_nibbles (n + 1) (drop (current_pos s + 2) rom_data)) = n + 1"
      using enough unfolding take_nibbles_of[OF enough, symmetric]
      by (simp add: length_nibbles_of)
    then show ?thesis by (simp add: decode_nibbles_length)
  qed
  have mid: "nibble_count (loop_iter (1 + j) rom_data a s) > 0" if "j < bytes" for j
  proof -
    from that have "j \<le> bytes" by simp
    from run[OF this] have "nibble_count (loop_iter j rom_data a s1) = n + 1 - 2 * j"
      by (simp add: s1_def)
    moreover from that have "2 * j < n + 1" unfolding bytes_def by arith
    ultimately show ?thesis unfolding iter by simp
  qed
  show ?thesis
    unfolding Let_def n_def[symmetric] bytes_def[symmetric]
    using s' len mid by simp
qed

theorem long_block_consumption_witness:
  "current_pos (loop_iter 3 [0x80, 0x02, 0x77, 0x7F, 0x00] 0 (initial_decode_state 0)) = 4 \<and>
   nibble_count (loop_iter 3 [0x80, 0x02, 0x77, 0x7F, 0x00] 0 (initial_decode_state 0)) = 0 \<and>
   length (pcm_buffer (loop_iter 3 [0x80, 0x02, 0x77, 0x7F, 0x00] 0 (initial_decode_state 0))) = 3 \<and>
   pcm_buffer (loop_iter 3 [0x80, 0x02, 0x77, 0x7F, 0x00] 0 (initial_decode_state 0)) =
     snd (decode_nibbles [7, 7, 7] \<lparr>current_sample = 0, adpcm_state = 0\<rparr> []) \<and>
   0 < nibble_count (loop_iter 2 [0x80, 0x02, 0x77, 0x7F, 0x00] 0 (initial_decode_state 0))"
proof -
  let ?rom = "[0x80, 0x02, 0x77, 0x7F, 0x00] :: byte list"
  let ?s = "initial_decode_state 0"
  have h: "loop_cond ?rom ?s" "nibble_count ?s = 0" "decoding_ok ?s"
    "0x80 \<le> ?rom ! current_pos ?s" "?rom ! current_pos ?s \<le> 0xBF"
    "current_pos ?s + 2 + (unat (?rom ! (current_pos ?s + 1)) + 2) div 2 \<le> length ?rom"
    by (simp_all add: loop_cond_def initial_decode_state_def)
  have v: "unat (?rom ! (0 + 1)) = 2" "current_pos ?s = 0"
    "adpcm ?s = \<lparr>current_sample = 0, adpcm_state = 0\<rparr>" "pcm_buffer ?s = []"
    by (simp_all add: initial_decode_state_def init_pcm_buffer_def)
  have bn: "block_nibbles 3 [0x77, 0x7F, 0x00 :: byte] = [7, 7, 7]"
    by (simp add: block_nibbles_def)
  have k: "1 + (2 + 2) div 2 = (3::nat)" "(2 + 2) div 2 = (2::nat)" "2 + 1 = (3::nat)"
    "0 + 2 = (2::nat)" "length ([]::int list) + 3 = 3" "1 + 2 = (3::nat)"
    by simp_all
  note t = long_block_consumption[OF h, of 0, unfolded Let_def v k]
  from t have "\<forall>j<2. 0 < nibble_count (loop_iter (1 + j) ?rom 0 ?s)"
    by blast
  then have "(1::nat) < 2 \<longrightarrow> 0 < nibble_count (loop_iter (1 + 1) ?rom 0 ?s)"
    by (rule spec)
  moreover have "(1::nat) < 2" by simp
  ultimately have "0 < nibble_count (loop_iter (1 + 1) ?rom 0 ?s)"
    by (rule mp)
  then have mid: "0 < nibble_count (loop_iter 2 ?rom 0 ?s)"
    by (simp only: one_add_one)
  from t have "(adpcm (loop_iter 3 ?rom 0 ?s), pcm_buffer (loop_iter 3 ?rom 0 ?s)) =
      decode_nibbles [7, 7, 7] \<lparr>current_sample = 0, adpcm_state = 0\<rparr> []"
    by (simp add: bn del: loop_iter.simps decode_nibbles.simps)
  then have buf: "pcm_buffer (loop_iter 3 ?rom 0 ?s) =
      snd (decode_nibbles [7, 7, 7] \<lparr>current_sample = 0, adpcm_state = 0\<rparr> [])"
    by (simp add: prod_eq_iff del: loop_iter.simps decode_nibbles.simps)
  from t mid buf show ?thesis
    by (simp del: loop_iter.simps decode_nibbles.simps)
qed

text \<open>
  A repeat command whose repeat field is 1 plays its block once, whatever the block: after
  the \<open>n + 1\<close> nibbles the decoder is back in the command state with no repeat
  pending, so the byte after the block is read as the next command.
\<close>

lemma nibble_phase_single:
  assumes "current_pos s < length rom" "repeat_count s = 1" "nibble_count s > 0"
  shows "nibble_phase rom a s =
    (if nibble_count s \<le> 2 then
       s\<lparr>current_pos := current_pos s + 1,
         adpcm := fst (decode_nibbles (take (nibble_count s) (nibbles_of [rom ! current_pos s]))
                    (adpcm s) (pcm_buffer s)),
         pcm_buffer := snd (decode_nibbles (take (nibble_count s) (nibbles_of [rom ! current_pos s]))
                    (adpcm s) (pcm_buffer s)),
         nibble_count := 0, repeat_count := 0,
         current_repeat_nibble_start := 0, current_repeat_nibble_count := 0\<rparr>
     else
       s\<lparr>current_pos := current_pos s + 1,
         adpcm := fst (decode_nibbles (nibbles_of [rom ! current_pos s]) (adpcm s) (pcm_buffer s)),
         pcm_buffer := snd (decode_nibbles (nibbles_of [rom ! current_pos s])
                    (adpcm s) (pcm_buffer s)),
         nibble_count := nibble_count s - 2\<rparr>)"
proof -
  consider (one) "nibble_count s = 1" | (two) "nibble_count s = 2" | (more) "nibble_count s > 2"
    using assms(3) by linarith
  then show ?thesis
  proof cases
    case one
    with assms show ?thesis
      by (simp add: nibble_phase_def Let_def case_prod_beta)
  next
    case two
    with assms show ?thesis
      by (simp add: nibble_phase_def Let_def case_prod_beta numeral_2_eq_2)
  next
    case more
    define m where "m = nibble_count s - 3"
    from more have m: "nibble_count s = Suc (Suc (Suc m))"
      unfolding m_def by arith
    with assms show ?thesis
      by (simp add: nibble_phase_def Let_def case_prod_beta)
  qed
qed

lemma single_play_run:
  assumes "repeat_count s = 1" "\<not> broke s" "\<not> end_of_message s"
    and "nibble_count s = m" "m > 0" "current_pos s + (m + 1) div 2 \<le> length rom"
  shows "loop_iter ((m + 1) div 2) rom a s =
    s\<lparr>current_pos := current_pos s + (m + 1) div 2,
      adpcm := fst (decode_nibbles (take m (nibbles_of (drop (current_pos s) rom)))
                 (adpcm s) (pcm_buffer s)),
      pcm_buffer := snd (decode_nibbles (take m (nibbles_of (drop (current_pos s) rom)))
                 (adpcm s) (pcm_buffer s)),
      nibble_count := 0, repeat_count := 0,
      current_repeat_nibble_start := 0, current_repeat_nibble_count := 0\<rparr>"
  using assms
proof (induction m arbitrary: s rule: less_induct)
  case (less m)
  from less.prems have p: "current_pos s < length rom" and n: "nibble_count s > 0"
    by simp_all
  with less.prems have c: "loop_cond rom s" by (simp add: loop_cond_def)
  let ?b = "rom ! current_pos s"
  note e = nibble_phase_single[OF p less.prems(1) n, of a]
  have d: "drop (current_pos s) rom = ?b # drop (current_pos s + 1) rom"
    using p by (simp add: Cons_nth_drop_Suc)
  show ?case
  proof (cases "m \<le> 2")
    case True
    with less.prems(5) have k: "(m + 1) div 2 = 1" by arith
    from True less.prems(5) have "m = 1 \<or> m = 2" by arith
    then have t: "take m (nibbles_of (drop (current_pos s) rom)) = take m (nibbles_of [?b])"
      by (auto simp: d numeral_2_eq_2)
    have "loop_iter 1 rom a s = nibble_phase rom a s"
      using c n by (simp add: loop_body_def)
    with True less.prems(4) show ?thesis
      unfolding k t e by simp
  next
    case False
    define m' where "m' = m - 2"
    from False have m: "m = Suc (Suc m')" "m' < m" "m' > 0"
      unfolding m'_def by arith+
    let ?s1 = "nibble_phase rom a s"
    have e1: "?s1 = s\<lparr>current_pos := current_pos s + 1,
         adpcm := fst (decode_nibbles (nibbles_of [?b]) (adpcm s) (pcm_buffer s)),
         pcm_buffer := snd (decode_nibbles (nibbles_of [?b]) (adpcm s) (pcm_buffer s)),
         nibble_count := m'\<rparr>"
      using False less.prems(4) unfolding e m'_def by simp
    have k: "(m + 1) div 2 = Suc ((m' + 1) div 2)"
      unfolding m(1) by simp
    have i: "loop_iter (Suc j) rom a s = loop_iter j rom a ?s1" for j
      using c n by (simp add: loop_body_def)
    have pre: "repeat_count ?s1 = 1" "\<not> broke ?s1" "\<not> end_of_message ?s1"
      "nibble_count ?s1 = m'" "current_pos ?s1 + (m' + 1) div 2 \<le> length rom"
      using less.prems unfolding e1 k by simp_all
    have t: "take m (nibbles_of (drop (current_pos s) rom)) =
        nibbles_of [?b] @ take m' (nibbles_of (drop (current_pos s + 1) rom))"
      by (simp add: d m(1))
    show ?thesis
      unfolding k i less.IH[OF m(2) pre(1-4) m(3) pre(5)] t decode_nibbles_append
      unfolding e1 by simp
  qed
qed


lemma repeat_field_one_single_play:
  assumes "loop_cond rom s" and "nibble_count s = 0" and "decoding_ok s"
    and "0xC0 \<le> rom ! current_pos s"
    and "unat (drop_bit 3 (rom ! current_pos s) AND 0x07) = 1"
    and "current_pos s + 2 + (unat (rom ! (current_pos s + 1)) + 2) div 2 \<le> length rom"
  shows "let n = unat (rom ! (current_pos s + 1));
             bytes = (n + 2) div 2;
             s' = loop_iter (1 + bytes) rom a s
         in current_pos s' = current_pos s + 2 + bytes \<and>
            nibble_count s' = 0 \<and> repeat_count s' = 0 \<and>
            length (pcm_buffer s') = length (pcm_buffer s) + (n + 1)"
proof -
  define n where "n = unat (rom ! (current_pos s + 1))"
  define bytes where "bytes = (n + 2) div 2"
  define s1 where "s1 = s\<lparr>current_pos := current_pos s + 2, nibble_count := n + 1,
    repeat_count := 1, current_repeat_nibble_start := current_pos s + 2,
    current_repeat_nibble_count := n + 1\<rparr>"
  from assms(1) have p: "current_pos s < length rom" and b: "\<not> broke s"
    and e: "\<not> end_of_message s"
    by (simp_all add: loop_cond_def)
  from assms(6) have q: "\<not> current_pos s + 1 \<ge> length rom" by simp
  have body: "loop_body rom a s = s1"
    using assms(2,3,5) q command_phase_repeat[OF p assms(4), of a]
    by (simp add: loop_body_def break_unless_ok_def s1_def n_def)
  have iter: "loop_iter (1 + bytes) rom a s = loop_iter bytes rom a s1"
    using assms(1) body by simp
  have pre: "repeat_count s1 = 1" "\<not> broke s1" "\<not> end_of_message s1"
    "nibble_count s1 = n + 1" "n + 1 > 0" "current_pos s1 + (n + 1 + 1) div 2 \<le> length rom"
    using b e assms(6) by (simp_all add: s1_def n_def)
  have k: "(n + 1 + 1) div 2 = bytes" by (simp add: bytes_def)
  note run = single_play_run[OF pre, of a, unfolded k]
  have len: "length (take (n + 1) (nibbles_of (drop (current_pos s1) rom))) = n + 1"
    using pre(6) by (simp add: length_nibbles_of s1_def)
  show ?thesis
    unfolding Let_def n_def[symmetric] bytes_def[symmetric] iter run
    using len by (simp add: decode_nibbles_length s1_def)
qed

section \<open>Listing a ROM\<close>

lemma dec_digit: "n < 10 \<Longrightarrow> dec n = [''0123456789'' ! n]"
  by (simp add: dec.simps[of n])

lemma dec_0: "dec 0 = ''0''"
  by (simp add: dec_digit)

lemma replicate_numeral: "replicate (numeral k) x = x # replicate (pred_numeral k) x"
  by (simp add: numeral_eq_Suc)

lemma default_name_0_0: "default_filename_base 0 0 = ''message_0_000''"
  by (simp add: default_filename_base_def dec03_def dec_0 replicate_numeral)

lemma padding_tabs_13: "padding_tabs ''message_0_000'' = [TAB, TAB, TAB, TAB]"
  by (simp add: padding_tabs_def TAB_WIDTH_def LIST_FILENAME_ALIGN_WIDTH_def Let_def
      replicate_numeral TAB_def)

lemma list_entry_0_0:
  assumes "6 < length rom_data" "rom_data ! 6 \<noteq> MODE_PCM"
  shows "list_entry rom_data 6 0 0 None =
    [Stdout (''0'' @ [TAB] @ ''0'' @ [TAB] @ ''message_0_000'' @ [TAB, TAB, TAB, TAB]
             @ ''# '' @ [NEWLINE])]"
  using assms
  by (simp add: list_entry_def build_comment_def default_name_0_0 padding_tabs_13 dec_0
      TAB_def NEWLINE_def)

lemma single_message_listing_eval:
  "main_run (listing_config single_message_rom basename) =
    (EXIT_SUCCESS,
     [Stdout (''# ROM: '' @ basename @ [NEWLINE, NEWLINE]),
      Stdout (''0'' @ [TAB] @ ''0'' @ [TAB] @ ''message_0_000'' @ [TAB, TAB, TAB, TAB]
             @ ''# '' @ [NEWLINE])]) \<and>
   main_run (listing_config (single_message_rom @ [0x00]) basename) =
    (EXIT_SUCCESS,
     [Stdout (''# ROM: '' @ basename @ [NEWLINE, NEWLINE]),
      Stdout (''0'' @ [TAB] @ ''0'' @ [TAB] @ ''message_0_000'' @ [TAB, TAB, TAB, TAB]
             @ ''# '' @ [NEWLINE])])"
proof -
  have t: "read_u16be single_message_rom 5 = 3" "read_u16be (single_message_rom @ [0x00]) 5 = 3"
    by (simp_all add: read_u16be_def single_message_rom_def)
  have e: "list_entry single_message_rom 6 0 0 None =
      [Stdout (''0'' @ [TAB] @ ''0'' @ [TAB] @ ''message_0_000'' @ [TAB, TAB, TAB, TAB]
             @ ''# '' @ [NEWLINE])]"
    "list_entry (single_message_rom @ [0x00]) 6 0 0 None =
      [Stdout (''0'' @ [TAB] @ ''0'' @ [TAB] @ ''message_0_000'' @ [TAB, TAB, TAB, TAB]
             @ ''# '' @ [NEWLINE])]"
    by (rule list_entry_0_0; simp add: single_message_rom_def MODE_PCM_def)+
  have l: "length single_message_rom = 7" "single_message_rom ! 0 = 0"
    "take 4 (drop (Suc 0) single_message_rom) = ROM_MAGIC"
    "take 4 (drop (Suc 0) (single_message_rom @ [0])) = ROM_MAGIC"
    "(single_message_rom @ [0]) ! 0 = 0" "single_message_rom \<noteq> []"
    by (simp_all add: single_message_rom_def ROM_MAGIC_def)
  show ?thesis
    by (simp add: main_run_def listing_config_def initial_walk_state_def segment_loop.simps
        message_loop.simps handle_message_iteration_def t e l ROM_SEGMENT_SIZE_def Let_def
        NEWLINE_def)
qed

text \<open>
  C8 (as stated). The claim has the record line end in \<open>#\<close> directly followed by the
  newline. Neither listing contains that line.
\<close>

theorem single_message_listing_no_bare_hash:
  "Stdout (''0'' @ [TAB] @ ''0'' @ [TAB] @ ''message_0_000'' @ [TAB, TAB, TAB, TAB]
             @ ''#'' @ [NEWLINE])
     \<notin> set (snd (main_run (listing_config single_message_rom ''rom.bin''))) \<and>
   Stdout (''0'' @ [TAB] @ ''0'' @ [TAB] @ ''message_0_000'' @ [TAB, TAB, TAB, TAB]
             @ ''#'' @ [NEWLINE])
     \<notin> set (snd (main_run (listing_config (single_message_rom @ [0x00]) ''rom.bin'')))"
proof -
  have "main_run (listing_config single_message_rom ''rom.bin'') =
    (EXIT_SUCCESS,
     [Stdout (''# ROM: '' @ ''rom.bin'' @ [NEWLINE, NEWLINE]),
      Stdout (''0'' @ [TAB] @ ''0'' @ [TAB] @ ''message_0_000'' @ [TAB, TAB, TAB, TAB]
             @ ''# '' @ [NEWLINE])])"
    "main_run (listing_config (single_message_rom @ [0x00]) ''rom.bin'') =
    (EXIT_SUCCESS,
     [Stdout (''# ROM: '' @ ''rom.bin'' @ [NEWLINE, NEWLINE]),
      Stdout (''0'' @ [TAB] @ ''0'' @ [TAB] @ ''message_0_000'' @ [TAB, TAB, TAB, TAB]
             @ ''# '' @ [NEWLINE])])"
    using single_message_listing_eval[of "''rom.bin''"] by simp_all
  then show ?thesis by (simp add: TAB_def NEWLINE_def)
qed

text \<open>
  C8 (amended). For the single-message ROM, list mode prints the header line and exactly
  the record line \<open>0<TAB>0<TAB>message_0_000\<close>, four padding tabs, then \<open>#\<close>, one
  space and a newline: without a map comment and without the PCM marker the comment field
  is \<open>"# "\<close>.
\<close>

theorem single_message_listing:
  "main_run (listing_config single_message_rom basename) =
    (EXIT_SUCCESS,
     [Stdout (''# ROM: '' @ basename @ [NEWLINE, NEWLINE]),
      Stdout (''0'' @ [TAB] @ ''0'' @ [TAB] @ ''message_0_000'' @ [TAB, TAB, TAB, TAB]
             @ ''# '' @ [NEWLINE])]) \<and>
   main_run (listing_config (single_message_rom @ [0x00]) basename) =
    (EXIT_SUCCESS,
     [Stdout (''# ROM: '' @ basename @ [NEWLINE, NEWLINE]),
      Stdout (''0'' @ [TAB] @ ''0'' @ [TAB] @ ''message_0_000'' @ [TAB, TAB, TAB, TAB]
             @ ''# '' @ [NEWLINE])])"
  by (rule single_message_listing_eval)

theorem single_message_listing_witness:
  "snd (main_run (listing_config single_message_rom ''rom.bin'')) =
     [Stdout (''# ROM: rom.bin'' @ [CHR 0x0A, CHR 0x0A]),
      Stdout (''0'' @ [CHR 0x09] @ ''0'' @ [CHR 0x09] @ ''message_0_000'' @
              [CHR 0x09, CHR 0x09, CHR 0x09, CHR 0x09] @ ''# '' @ [CHR 0x0A])]"
  using single_message_listing[of "''rom.bin''"] by (simp add: TAB_def NEWLINE_def)

section \<open>Records that start outside the ROM\<close>













section \<open>Segment headers\<close>








section \<open>Streams that end before the end-of-message opcode\<close>

lemma length_byte_missing:
  assumes c: "loop_cond rom_data s" and n: "nibble_count s = 0"
    and op: "0x80 \<le> rom_data ! current_pos s" and last: "current_pos s + 1 = length rom_data"
  shows "loop_body rom_data a s =
     s\<lparr>current_pos := length rom_data, decoding_ok := False, broke := True,
       diag := diag s @ [trunc_warning (rom_data ! (length rom_data - 1)) a]\<rparr>"
proof -
  from c have p: "current_pos s < length rom_data" by (simp add: loop_cond_def)
  from last have "length rom_data - Suc 0 = current_pos s"
    by simp
  then have e: "rom_data ! (length rom_data - Suc 0) = rom_data ! current_pos s"
    by simp
  show ?thesis
  proof (cases "rom_data ! current_pos s \<le> 0xBF")
    case True
    from command_phase_long[OF p op True, of a] n last True show ?thesis
      by (simp add: loop_body_def trunc_warning_def e)
  next
    case False
    then have "0xC0 \<le> rom_data ! current_pos s"
      by (simp add: word_le_nat_alt)
    from command_phase_repeat[OF p this, of a] n last False show ?thesis
      by (simp add: loop_body_def trunc_warning_def e)
  qed
qed

lemma loop_body_inv:
  assumes c: "loop_cond rom_data s" and i: "decode_inv rom_data a s"
  shows "decode_inv rom_data a (loop_body rom_data a s)"
proof -
  from c have p: "current_pos s < length rom_data" and b: "\<not> broke s"
    and ne: "\<not> end_of_message s"
    by (simp_all add: loop_cond_def)
  from i b have ok: "decoding_ok s" and d: "diag s = []"
    by (simp_all add: decode_inv_def)
  show ?thesis
  proof (cases "nibble_count s > 0")
    case True
    with p b ok d show ?thesis
      by (simp add: loop_body_def decode_inv_def nibble_phase_frame)
  next
    case False
    then have n: "nibble_count s = 0" by simp
    then have e: "loop_body rom_data a s = command_phase rom_data a s" by (simp add: loop_body_def)
    show ?thesis
    proof (cases "rom_data ! current_pos s" rule: opcode_classes)
      case eom
      with p b ok d show ?thesis
        by (simp add: e command_phase_end break_unless_ok_def decode_inv_def)
    next
      case silence
      with p b ok d show ?thesis
        by (simp add: e command_phase_silence break_unless_ok_def decode_inv_def)
    next
      case short
      with p b ok d show ?thesis
        by (simp add: e command_phase_short break_unless_ok_def decode_inv_def)
    next
      case long
      show ?thesis
      proof (cases "current_pos s + 1 \<ge> length rom_data")
        case True
        with p have "current_pos s + 1 = length rom_data" by simp
        from length_byte_missing[OF c n long(1) this, of a] d ne show ?thesis
          by (simp add: decode_inv_def)
      next
        case False
        with p b ok d long show ?thesis
          by (simp add: e command_phase_long break_unless_ok_def decode_inv_def)
      qed
    next
      case repeat
      then have ge: "0x80 \<le> rom_data ! current_pos s"
        by (simp add: word_le_nat_alt)
      show ?thesis
      proof (cases "current_pos s + 1 \<ge> length rom_data")
        case True
        with p have "current_pos s + 1 = length rom_data" by simp
        from length_byte_missing[OF c n ge this, of a] d ne show ?thesis
          by (simp add: decode_inv_def)
      next
        case False
        with p b ok d repeat show ?thesis
          by (simp add: e command_phase_repeat break_unless_ok_def decode_inv_def)
      qed
    qed
  qed
qed

lemma adpcm_loop_inv:
  "decode_inv rom_data a s \<Longrightarrow> decode_inv rom_data a (adpcm_loop rom_data a s)"
proof (induction rom_data a s rule: adpcm_loop.induct)
  case (1 rom_data a s)
  show ?case
  proof (cases "loop_cond rom_data s")
    case True
    from 1(1)[OF True loop_body_inv[OF True 1(2)]] True show ?thesis
      by (simp add: adpcm_loop.simps[of rom_data a s])
  next
    case False
    with 1(2) show ?thesis by (simp add: adpcm_loop.simps[of rom_data a s])
  qed
qed

lemma adpcm_loop_exit: "\<not> loop_cond rom_data (adpcm_loop rom_data a s)"
  using adpcm_loop_is_iter[of rom_data a s] by auto

lemma silence_then_end_of_rom_decode:
  "adpcm_loop silence_then_end_of_rom 0 (initial_decode_state 9) =
     \<lparr>current_pos = 10, adpcm = \<lparr>current_sample = 0, adpcm_state = 0\<rparr>,
      pcm_buffer = [0, 0, 0, 0, 0, 0, 0, 0], decoding_ok = True, end_of_message = False,
      nibble_count = 0, repeat_count = 0, current_repeat_nibble_start = 0,
      current_repeat_nibble_count = 0, broke = False, diag = []\<rparr>"
  by code_simp

lemma block_cut_short_decode:
  "adpcm_loop block_cut_short 0 (initial_decode_state 9) =
     \<lparr>current_pos = 12, adpcm = \<lparr>current_sample = 29, adpcm_state = 6\<rparr>,
      pcm_buffer = [1280, 3712], decoding_ok = True, end_of_message = False,
      nibble_count = 2, repeat_count = 0, current_repeat_nibble_start = 0,
      current_repeat_nibble_count = 0, broke = False, diag = []\<rparr>"
  by code_simp

lemma length_byte_cut_decode:
  "adpcm_loop length_byte_cut 0 (initial_decode_state 9) =
     \<lparr>current_pos = 11, adpcm = \<lparr>current_sample = 0, adpcm_state = 0\<rparr>,
      pcm_buffer = [0, 0, 0, 0, 0, 0, 0, 0], decoding_ok = False, end_of_message = False,
      nibble_count = 0, repeat_count = 0, current_repeat_nibble_start = 0,
      current_repeat_nibble_count = 0, broke = True,
      diag = [Warn_end_of_rom_long 0x80 0]\<rparr>"
  by code_simp

lemma single_message_at_8:
  assumes "take 9 rom_data = [0x00, 0x5A, 0xA5, 0x69, 0x55, 0x00, 0x04, 0xFF, 0x00]"
    and "length rom_data \<le> ROM_SEGMENT_SIZE"
  shows "main_run (decode_config rom_data basename) =
    (EXIT_SUCCESS,
     diag (adpcm_loop rom_data 0 (initial_decode_state 9)) @
     adpcm_result (adpcm_loop rom_data 0 (initial_decode_state 9)) 0 ''message_0_000'' None
       basename)"
proof -
  from assms(1) obtain rest where r: "rom_data = [0x00, 0x5A, 0xA5, 0x69, 0x55, 0x00, 0x04, 0xFF, 0x00] @ rest"
    by (metis append_take_drop_id)
  have t: "read_u16be rom_data 5 = 4"
    by (simp add: r read_u16be_def)
  have l: "rom_data \<noteq> []" "0 < length rom_data" "\<not> length rom_data < 5"
    "take 4 (drop (Suc 0) rom_data) = ROM_MAGIC" "rom_data ! 0 = 0" "\<not> length rom_data < 7"
    "8 < length rom_data" "rom_data ! 8 = MODE_ADPCM" "\<not> length rom_data \<le> 8"
    by (simp_all add: r ROM_MAGIC_def MODE_ADPCM_def)
  from assms(2) have h: "\<not> 131072 < length rom_data"
    by (simp add: ROM_SEGMENT_SIZE_def)
  show ?thesis
    unfolding main_run_def
    by (subst segment_loop.simps, subst segment_loop.simps)
      (simp add: decode_config_def initial_walk_state_def l t h message_loop.simps
        handle_message_iteration_def process_message_def default_name_0_0
        ROM_SEGMENT_SIZE_def Let_def)
qed

text \<open>
  C2 (as stated). The claim has every decode that runs out of ROM bytes end with an error
  and without a WAV file. A stream that ends where the next command byte would be read,
  and one that ends inside a data block, are both decoded without error, and the samples
  produced so far are written to a WAV file.
\<close>

theorem truncated_stream_still_writes_wav:
  "main_run (decode_config silence_then_end_of_rom ''rom.bin'') =
     (EXIT_SUCCESS,
      [Write_wav ''message_0_000.wav'' [0, 0, 0, 0, 0, 0, 0, 0] 8000 ''rom.bin''
         ''message_0_000'' ''0'' None]) \<and>
   main_run (decode_config block_cut_short ''rom.bin'') =
     (EXIT_SUCCESS,
      [Write_wav ''message_0_000.wav'' [1280, 3712] 8000 ''rom.bin''
         ''message_0_000'' ''0'' None])"
proof -
  have "take 9 silence_then_end_of_rom = [0x00, 0x5A, 0xA5, 0x69, 0x55, 0x00, 0x04, 0xFF, 0x00]"
    "length silence_then_end_of_rom \<le> ROM_SEGMENT_SIZE"
    by (simp_all add: silence_then_end_of_rom_def ROM_SEGMENT_SIZE_def)
  note a = single_message_at_8[OF this, of "''rom.bin''", unfolded silence_then_end_of_rom_decode]
  have "take 9 block_cut_short = [0x00, 0x5A, 0xA5, 0x69, 0x55, 0x00, 0x04, 0xFF, 0x00]"
    "length block_cut_short \<le> ROM_SEGMENT_SIZE"
    by (simp_all add: block_cut_short_def ROM_SEGMENT_SIZE_def)
  note b = single_message_at_8[OF this, of "''rom.bin''", unfolded block_cut_short_decode]
  from a b show ?thesis
    by (simp add: adpcm_result_def DEFAULT_SAMPLE_RATE_def dec_0)
qed

text \<open>
  C2 (amended). When the decoder runs out of ROM bytes while reading the length byte
  \<open>n\<close> of a long or repeat block, the loop breaks with \<open>decoding_ok\<close> cleared, and
  \<open>process_message\<close> prints the warning and the decoding error and writes no WAV file,
  whatever samples were produced. When the ROM ends where the next command byte would be
  read and at least one sample has been produced, the decode ends without error and the
  samples are written to a WAV file; when no sample has been produced, no WAV file is
  written.
\<close>

theorem truncated_stream_outcomes:
  assumes "segment_start + off < length rom_data"
    and "rom_data ! (segment_start + off) = MODE_ADPCM"
  shows
    "let f = adpcm_loop rom_data a (initial_decode_state (segment_start + off + 1));
         evs = snd (process_message rom_data segment_start seg idx a off next_off mapping
                      basename)
     in (broke f \<longrightarrow>
           evs = [trunc_warning (rom_data ! (length rom_data - 1)) a, Error_decoding_failed a]) \<and>
        (\<not> broke f \<and> \<not> end_of_message f \<and> nibble_count f = 0 \<longrightarrow>
           length rom_data \<le> current_pos f \<and>
           (pcm_buffer f \<noteq> [] \<longrightarrow>
              evs = [Write_wav (mapped_base mapping seg idx @ ''.wav'') (pcm_buffer f)
                       DEFAULT_SAMPLE_RATE basename (mapped_base mapping seg idx) (dec a)
                       (case mapping of None \<Rightarrow> None | Some m \<Rightarrow> comment m)]) \<and>
           (pcm_buffer f = [] \<longrightarrow> filter is_write_wav evs = [])) \<and>
        (\<forall>s. loop_cond rom_data s \<and> nibble_count s = 0 \<and> 0x80 \<le> rom_data ! current_pos s \<and>
              current_pos s + 1 = length rom_data \<longrightarrow>
              broke (loop_body rom_data a s) \<and> \<not> decoding_ok (loop_body rom_data a s))"
proof -
  define f where "f = adpcm_loop rom_data a (initial_decode_state (segment_start + off + 1))"
  have "decode_inv rom_data a (initial_decode_state (segment_start + off + 1))"
    by (simp add: decode_inv_def initial_decode_state_def)
  then have inv: "decode_inv rom_data a f"
    unfolding f_def by (rule adpcm_loop_inv)
  have exit: "\<not> loop_cond rom_data f"
    unfolding f_def by (rule adpcm_loop_exit)
  have evs: "snd (process_message rom_data segment_start seg idx a off next_off mapping basename)
      = diag f @ adpcm_result f a (mapped_base mapping seg idx)
          (case mapping of None \<Rightarrow> None | Some m \<Rightarrow> comment m) basename"
    using assms by (simp add: process_message_def Let_def f_def mapped_base_def)
  have 1: "snd (process_message rom_data segment_start seg idx a off next_off mapping basename)
      = [trunc_warning (rom_data ! (length rom_data - 1)) a, Error_decoding_failed a]"
    if "broke f"
    using that inv by (simp add: evs decode_inv_def adpcm_result_def)
  have 2: "length rom_data \<le> current_pos f \<and>
      (pcm_buffer f \<noteq> [] \<longrightarrow>
       snd (process_message rom_data segment_start seg idx a off next_off mapping basename)
       = [Write_wav (mapped_base mapping seg idx @ ''.wav'') (pcm_buffer f)
            DEFAULT_SAMPLE_RATE basename (mapped_base mapping seg idx) (dec a)
            (case mapping of None \<Rightarrow> None | Some m \<Rightarrow> comment m)]) \<and>
      (pcm_buffer f = [] \<longrightarrow>
       filter is_write_wav
         (snd (process_message rom_data segment_start seg idx a off next_off mapping basename))
       = [])"
    if "\<not> broke f" "\<not> end_of_message f"
    using that inv exit by (simp add: evs decode_inv_def adpcm_result_def loop_cond_def)
  have 3: "broke (loop_body rom_data a s) \<and> \<not> decoding_ok (loop_body rom_data a s)"
    if "loop_cond rom_data s" "nibble_count s = 0" "0x80 \<le> rom_data ! current_pos s"
      "current_pos s + 1 = length rom_data" for s
    using length_byte_missing[OF that, of a] by simp
  show ?thesis
    unfolding Let_def f_def[symmetric]
    using 1 2 3 by blast
qed

theorem truncated_stream_outcomes_witness:
  "snd (process_message length_byte_cut 0 0 0 0 8 131072 None ''rom.bin'') =
     [Warn_end_of_rom_long 0x80 0, Error_decoding_failed 0] \<and>
   snd (process_message silence_then_end_of_rom 0 0 0 0 8 131072 None ''rom.bin'') =
     [Write_wav ''message_0_000.wav'' [0, 0, 0, 0, 0, 0, 0, 0] 8000 ''rom.bin''
         ''message_0_000'' ''0'' None]"
proof -
  have h1: "0 + 8 < length length_byte_cut" "length_byte_cut ! (0 + 8) = MODE_ADPCM"
    by (simp_all add: length_byte_cut_def MODE_ADPCM_def)
  have h2: "0 + 8 < length silence_then_end_of_rom"
    "silence_then_end_of_rom ! (0 + 8) = MODE_ADPCM"
    by (simp_all add: silence_then_end_of_rom_def MODE_ADPCM_def)
  have k: "0 + 8 + 1 = (9::nat)" by simp
  have c: "trunc_warning (length_byte_cut ! (length length_byte_cut - 1)) 0 =
      Warn_end_of_rom_long 0x80 0"
    by (simp add: length_byte_cut_def trunc_warning_def)
  note t1 = truncated_stream_outcomes[OF h1, of 0 0 0 131072 None "''rom.bin''",
      unfolded Let_def k length_byte_cut_decode c]
  note t2 = truncated_stream_outcomes[OF h2, of 0 0 0 131072 None "''rom.bin''",
      unfolded Let_def k silence_then_end_of_rom_decode]
  from t1 have 1: "snd (process_message length_byte_cut 0 0 0 0 8 131072 None ''rom.bin'') =
     [Warn_end_of_rom_long 0x80 0, Error_decoding_failed 0]"
    by simp
  from t2 have 2: "snd (process_message silence_then_end_of_rom 0 0 0 0 8 131072 None
       ''rom.bin'') =
     [Write_wav ''message_0_000.wav'' [0, 0, 0, 0, 0, 0, 0, 0] 8000 ''rom.bin''
         ''message_0_000'' ''0'' None]"
    by (simp add: mapped_base_def default_name_0_0 DEFAULT_SAMPLE_RATE_def dec_0)
  from 1 2 show ?thesis by simp
qed

end
